theory Spec2Isabelle
  imports Main "HOL-Library.Sublist"
begin

section \<open>The batching log hook of app/main.go\<close>

text \<open>
  The program is one Go file. A logrus hook (\<open>ClickHouseHook\<close>) collects log entries in a
  slice and writes them to ClickHouse through \<open>database/sql\<close> in one transaction whenever
  the slice has reached \<open>batchSize\<close> entries (\<open>Fire\<close>), and once more at the end of
  \<open>main\<close> (\<open>flush\<close>).

  The database is outside the program. It is modelled as a value of type \<open>store\<close> that is
  passed through every call: it holds the outcomes the forthcoming driver calls will have
  (any pattern of failures can be written down), the calls issued so far, and the rows the
  server has accepted.
\<close>

subsection \<open>Errors, log entries\<close>

text \<open>
  A Go \<open>error\<close>. \<open>NewClickHouseHook\<close> tells a \<open>*clickhouse.Exception\<close> (code, message,
  stack trace) from every other error.
\<close>

datatype error =
    Exception int string string
  | OtherError string

text \<open>\<open>logrus.Level\<close>, in the order of \<open>logrus.AllLevels\<close>.\<close>

datatype level =
    PanicLevel | FatalLevel | ErrorLevel | WarnLevel | InfoLevel | DebugLevel | TraceLevel

text \<open>\<open>Level.String()\<close> of the logrus library.\<close>

fun level_String :: "level \<Rightarrow> string" where
  "level_String PanicLevel = ''panic''"
| "level_String FatalLevel = ''fatal''"
| "level_String ErrorLevel = ''error''"
| "level_String WarnLevel = ''warning''"
| "level_String InfoLevel = ''info''"
| "level_String DebugLevel = ''debug''"
| "level_String TraceLevel = ''trace''"

text \<open>
  The fields of \<open>logrus.Entry\<close> the program reads or sets. A \<open>time.Time\<close> is an instant,
  here a number of seconds.
\<close>

record entry =
  Time :: nat
  Level :: level
  Message :: string
  Data :: "(string \<times> int) list"

subsection \<open>The database as the program sees it\<close>

text \<open>An argument bound to a placeholder of a prepared statement.\<close>

datatype sql_value = TimeV nat | TextV string

text \<open>
  The calls of \<open>database/sql\<close>. The program never issues \<open>Rollback\<close>; it is listed
  because the API has it.
\<close>

datatype sql_call =
    Open string string
  | Ping
  | Begin
  | Prepare string
  | Exec string "sql_value list"
  | Commit
  | Rollback
  | StmtClose
  | DbClose

text \<open>
  \<open>script\<close>: the outcome of each forthcoming call that can fail, in call order
  (\<open>None\<close> is success; a call beyond the end of the list succeeds).
  \<open>calls\<close>: every call issued so far with its outcome.
  \<open>pending\<close>: the rows executed in the transaction begun last.
  \<open>committed\<close>: the batches the server has accepted, one per successful commit.
  \<open>released\<close>: whether \<open>db.Close()\<close> has been called.
\<close>

record store =
  script :: "error option list"
  calls :: "(sql_call \<times> error option) list"
  pending :: "sql_value list list"
  committed :: "sql_value list list list"
  released :: bool

text \<open>The handle \<open>*sql.DB\<close>, named by the driver and the DSN it was opened with.\<close>

datatype sql_DB = DB string string

text \<open>The outcome of the next call, and a call that takes it.\<close>

fun next_outcome :: "error option list \<Rightarrow> error option" where
  "next_outcome [] = None"
| "next_outcome (r # rs) = r"

definition issue :: "sql_call \<Rightarrow> store \<Rightarrow> error option \<times> store" where
  "issue c w =
     (next_outcome (script w),
      w\<lparr>script := tl (script w), calls := calls w @ [(c, next_outcome (script w))]\<rparr>)"

definition sql_Open :: "string \<Rightarrow> string \<Rightarrow> store \<Rightarrow> (error + sql_DB) \<times> store" where
  "sql_Open driver dsn w =
     (case issue (Open driver dsn) w of
        (Some err, w') \<Rightarrow> (Inl err, w')
      | (None, w') \<Rightarrow> (Inr (DB driver dsn), w'))"

definition db_Ping :: "sql_DB \<Rightarrow> store \<Rightarrow> error option \<times> store" where
  "db_Ping d w = issue Ping w"

definition db_Begin :: "sql_DB \<Rightarrow> store \<Rightarrow> error option \<times> store" where
  "db_Begin d w =
     (case issue Begin w of
        (Some err, w') \<Rightarrow> (Some err, w')
      | (None, w') \<Rightarrow> (None, w'\<lparr>pending := []\<rparr>))"

definition tx_Prepare :: "string \<Rightarrow> store \<Rightarrow> error option \<times> store" where
  "tx_Prepare q w = issue (Prepare q) w"

definition stmt_Exec :: "string \<Rightarrow> sql_value list \<Rightarrow> store \<Rightarrow> error option \<times> store" where
  "stmt_Exec q args w =
     (case issue (Exec q args) w of
        (Some err, w') \<Rightarrow> (Some err, w')
      | (None, w') \<Rightarrow> (None, w'\<lparr>pending := pending w' @ [args]\<rparr>))"

definition tx_Commit :: "store \<Rightarrow> error option \<times> store" where
  "tx_Commit w =
     (case issue Commit w of
        (Some err, w') \<Rightarrow> (Some err, w')
      | (None, w') \<Rightarrow> (None, w'\<lparr>committed := committed w' @ [pending w'], pending := []\<rparr>))"

text \<open>The results of the two \<open>Close\<close> calls are discarded by the program.\<close>

definition stmt_Close :: "store \<Rightarrow> store" where
  "stmt_Close w = w\<lparr>calls := calls w @ [(StmtClose, None)]\<rparr>"

definition db_Close :: "sql_DB \<Rightarrow> store \<Rightarrow> store" where
  "db_Close d w = w\<lparr>calls := calls w @ [(DbClose, None)], released := True\<rparr>"

subsection \<open>The hook\<close>

record ClickHouseHook =
  db :: sql_DB
  entries :: "entry list"
  batchSize :: int

text \<open>
  A function either returns to its caller or ends the process: \<open>log.Fatal\<close> and
  \<open>log.Fatalf\<close> print and call \<open>os.Exit(1)\<close>, and deferred calls do not run then.
\<close>

datatype fatal =
    FatalException int string string
  | FatalError error
  | FatalConnect error
  | FatalFlush error

datatype 'a outcome =
    Returns 'a store
  | Exits fatal store

definition NewClickHouseHook ::
  "string \<Rightarrow> int \<Rightarrow> store \<Rightarrow> (error + ClickHouseHook) outcome" where
  "NewClickHouseHook dsn bs w =
     (case sql_Open ''clickhouse'' dsn w of
        (Inl err, w1) \<Rightarrow> Returns (Inl err) w1
      | (Inr d, w1) \<Rightarrow>
          (case db_Ping d w1 of
             (Some (Exception c m st), w2) \<Rightarrow> Exits (FatalException c m st) w2
           | (Some (OtherError m), w2) \<Rightarrow> Exits (FatalError (OtherError m)) w2
           | (None, w2) \<Rightarrow> Returns (Inr \<lparr>db = d, entries = [], batchSize = bs\<rparr>) w2))"

definition insert_sql :: string where
  "insert_sql = ''INSERT INTO tiered_logs (event_time, level, message) VALUES (?, ?, ?)''"

definition row_of :: "entry \<Rightarrow> sql_value list" where
  "row_of e = [TimeV (Time e), TextV (level_String (Level e)), TextV (Message e)]"

text \<open>The \<open>for ... range hook.entries\<close> loop of \<open>flush\<close>: it stops at the first failing insert.\<close>

fun exec_entries :: "string \<Rightarrow> entry list \<Rightarrow> store \<Rightarrow> error option \<times> store" where
  "exec_entries q [] w = (None, w)"
| "exec_entries q (e # es) w =
     (case stmt_Exec q (row_of e) w of
        (Some err, w') \<Rightarrow> (Some err, w')
      | (None, w') \<Rightarrow> exec_entries q es w')"

text \<open>\<open>defer stmt.Close()\<close> runs on every return after the statement was prepared.\<close>

definition flush :: "ClickHouseHook \<Rightarrow> store \<Rightarrow> error option \<times> ClickHouseHook \<times> store" where
  "flush hook w =
     (case db_Begin (db hook) w of
        (Some err, w1) \<Rightarrow> (Some err, hook, w1)
      | (None, w1) \<Rightarrow>
          (case tx_Prepare insert_sql w1 of
             (Some err, w2) \<Rightarrow> (Some err, hook, w2)
           | (None, w2) \<Rightarrow>
               (case exec_entries insert_sql (entries hook) w2 of
                  (Some err, w3) \<Rightarrow> (Some err, hook, stmt_Close w3)
                | (None, w3) \<Rightarrow>
                    (case tx_Commit w3 of
                       (Some err, w4) \<Rightarrow> (Some err, hook, stmt_Close w4)
                     | (None, w4) \<Rightarrow> (None, hook\<lparr>entries := []\<rparr>, stmt_Close w4)))))"

definition Fire :: "ClickHouseHook \<Rightarrow> entry \<Rightarrow> store \<Rightarrow> error option \<times> ClickHouseHook \<times> store" where
  "Fire hook e w =
     (let hook1 = hook\<lparr>entries := entries hook @ [e]\<rparr> in
      if int (length (entries hook1)) \<ge> batchSize hook1 then
        (case flush hook1 w of
           (Some err, hook2, w') \<Rightarrow> (Some err, hook2, w')
         | (None, hook2, w') \<Rightarrow> (None, hook2, w'))
      else (None, hook1, w))"

definition Levels :: "ClickHouseHook \<Rightarrow> level list" where
  "Levels hook = [PanicLevel, FatalLevel, ErrorLevel, WarnLevel, InfoLevel, DebugLevel, TraceLevel]"

subsection \<open>The host process\<close>

text \<open>
  A run of appends: \<open>Fire\<close> on each entry in turn, keeping what each call returned. This is
  what the logger does with the hook on every log call; logrus reports an error of \<open>Fire\<close>
  on stderr and goes on.
\<close>

fun Fires :: "ClickHouseHook \<Rightarrow> entry list \<Rightarrow> store \<Rightarrow> error option list \<times> ClickHouseHook \<times> store" where
  "Fires hook [] w = ([], hook, w)"
| "Fires hook (e # es) w =
     (case Fire hook e w of
        (r, hook1, w1) \<Rightarrow>
          (case Fires hook1 es w1 of (rs, hook2, w2) \<Rightarrow> (r # rs, hook2, w2)))"

definition main_dsn :: string where
  "main_dsn = ''tcp://localhost:9000?database=default&username=default&password=&debug=true''"

definition main_entry :: "(nat \<Rightarrow> nat) \<Rightarrow> nat \<Rightarrow> entry" where
  "main_entry now i =
     \<lparr>Time = now i, Level = InfoLevel, Message = ''This is an info log entry'',
      Data = [(''iteration'', int i)]\<rparr>"

text \<open>
  \<open>main\<close>, given the clock reading of each iteration. The logger hands an entry to the hook
  when the level of the entry is among \<open>hook.Levels()\<close>. \<open>defer hook.db.Close()\<close> runs when
  \<open>main\<close> returns, not when \<open>log.Fatalf\<close> ends the process.
\<close>

definition main :: "(nat \<Rightarrow> nat) \<Rightarrow> store \<Rightarrow> unit outcome" where
  "main now w =
     (case NewClickHouseHook main_dsn 5 w of
        Exits f w1 \<Rightarrow> Exits f w1
      | Returns (Inl err) w1 \<Rightarrow> Exits (FatalConnect err) w1
      | Returns (Inr hook) w1 \<Rightarrow>
          (case Fires hook
                  (filter (\<lambda>e. Level e \<in> set (Levels hook)) (map (main_entry now) [0..<10])) w1 of
             (rs, hook1, w2) \<Rightarrow>
               (case flush hook1 w2 of
                  (Some err, hook2, w3) \<Rightarrow> Exits (FatalFlush err) w3
                | (None, hook2, w3) \<Rightarrow> Returns () (db_Close (db hook2) w3))))"

subsection \<open>Notions used to state the properties\<close>

text \<open>A store on which no forthcoming call fails.\<close>

definition never_fails :: "store \<Rightarrow> bool" where
  "never_fails w = list_all (\<lambda>r. r = None) (script w)"

text \<open>The first failure among a list of outcomes, if any.\<close>

fun first_failure :: "error option list \<Rightarrow> error option" where
  "first_failure [] = None"
| "first_failure (None # rs) = first_failure rs"
| "first_failure (Some err # rs) = Some err"

text \<open>The store once \<open>Begin\<close> and \<open>Prepare\<close> have succeeded.\<close>

definition begun :: "store \<Rightarrow> store" where
  "begun w =
     w\<lparr>script := tl (tl (script w)),
       calls := calls w @ [(Begin, None), (Prepare insert_sql, None)],
       pending := []\<rparr>"

text \<open>The calls issued between two states of the store.\<close>

definition issued :: "store \<Rightarrow> store \<Rightarrow> (sql_call \<times> error option) list" where
  "issued w w' = drop (length (calls w)) (calls w')"

fun is_Exec :: "sql_call \<Rightarrow> bool" where
  "is_Exec (Exec q args) = True"
| "is_Exec c = False"

text \<open>
  The number of flushes between two states of the store: every run of \<open>flush\<close> starts
  with one call of \<open>Begin\<close>, and nothing else calls it.
\<close>

definition flushes :: "store \<Rightarrow> store \<Rightarrow> nat" where
  "flushes w w' = length (filter (\<lambda>c. fst c = Begin) (issued w w'))"

text \<open>The batches the server has accepted between two states of the store.\<close>

definition received :: "store \<Rightarrow> store \<Rightarrow> sql_value list list list" where
  "received w w' = drop (length (committed w)) (committed w')"

text \<open>The quotient rounded up.\<close>

definition ceil_div :: "nat \<Rightarrow> nat \<Rightarrow> nat" where
  "ceil_div n b = (n + b - 1) div b"

text \<open>How a run ended, and the store it left.\<close>

fun final_store :: "'a outcome \<Rightarrow> store" where
  "final_store (Returns x w) = w"
| "final_store (Exits f w) = w"

fun exit_fatal :: "'a outcome \<Rightarrow> fatal option" where
  "exit_fatal (Returns x w) = None"
| "exit_fatal (Exits f w) = Some f"

text \<open>
  Concrete inputs: a store with a given script on which nothing has happened yet, and the
  hook as \<open>NewClickHouseHook\<close> returns it.
\<close>

definition fresh_store :: "error option list \<Rightarrow> store" where
  "fresh_store rs = \<lparr>script = rs, calls = [], pending = [], committed = [], released = False\<rparr>"

definition new_hook :: "int \<Rightarrow> ClickHouseHook" where
  "new_hook bs = \<lparr>db = DB ''clickhouse'' main_dsn, entries = [], batchSize = bs\<rparr>"

section \<open>Lemmas on the store calls and on \<open>flush\<close>\<close>

lemma first_failure_None_iff: "first_failure rs = None \<longleftrightarrow> list_all (\<lambda>r. r = None) rs"
  by (induction rs rule: first_failure.induct) simp_all

lemma first_failure_Suc:
  "first_failure (take (Suc n) rs) =
     (case next_outcome rs of None \<Rightarrow> first_failure (take n (tl rs)) | Some err \<Rightarrow> Some err)"
  by (cases rs rule: first_failure.cases) simp_all

lemma stmt_Exec_ok:
  "next_outcome (script w) = None \<Longrightarrow>
   stmt_Exec q a w =
     (None, w\<lparr>script := tl (script w), calls := calls w @ [(Exec q a, None)],
              pending := pending w @ [a]\<rparr>)"
  by (simp add: stmt_Exec_def issue_def)

lemma stmt_Exec_fail:
  "next_outcome (script w) = Some err \<Longrightarrow>
   stmt_Exec q a w =
     (Some err, w\<lparr>script := tl (script w), calls := calls w @ [(Exec q a, Some err)]\<rparr>)"
  by (simp add: stmt_Exec_def issue_def)

lemma exec_entries_fst:
  "fst (exec_entries q es w) = first_failure (take (length es) (script w))"
proof (induction es arbitrary: w)
  case Nil
  show ?case by simp
next
  case (Cons e es)
  show ?case
  proof (cases "next_outcome (script w)")
    case None
    then show ?thesis
      using Cons.IH [of "w\<lparr>script := tl (script w), calls := calls w @ [(Exec q (row_of e), None)], pending := pending w @ [row_of e]\<rparr>"]
      by (simp add: stmt_Exec_ok first_failure_Suc del: take_Suc)
  next
    case (Some err)
    then show ?thesis by (simp add: stmt_Exec_fail first_failure_Suc)
  qed
qed

lemma exec_entries_ok:
  "fst (exec_entries q es w) = None \<Longrightarrow>
   snd (exec_entries q es w) =
     w\<lparr>script := drop (length es) (script w),
       calls := calls w @ map (\<lambda>e. (Exec q (row_of e), None)) es,
       pending := pending w @ map row_of es\<rparr>"
proof (induction es arbitrary: w)
  case Nil
  show ?case by simp
next
  case (Cons e es)
  show ?case
  proof (cases "next_outcome (script w)")
    case None
    then show ?thesis
      using Cons.IH [of "w\<lparr>script := tl (script w), calls := calls w @ [(Exec q (row_of e), None)], pending := pending w @ [row_of e]\<rparr>"]
          Cons.prems
      by (simp add: stmt_Exec_ok drop_Suc)
  next
    case (Some err)
    with Cons.prems show ?thesis by (simp add: stmt_Exec_fail)
  qed
qed

lemma exec_entries_calls:
  "\<exists>xs. calls (snd (exec_entries q es w)) = calls w @ xs \<and>
        prefix (map fst xs) (map (\<lambda>e. Exec q (row_of e)) es) \<and>
        (fst (exec_entries q es w) = None \<longrightarrow> map fst xs = map (\<lambda>e. Exec q (row_of e)) es)"
proof (induction es arbitrary: w)
  case Nil
  show ?case by simp
next
  case (Cons e es)
  show ?case
  proof (cases "next_outcome (script w)")
    case None
    define w1 where "w1 = w\<lparr>script := tl (script w), calls := calls w @ [(Exec q (row_of e), None)], pending := pending w @ [row_of e]\<rparr>"
    have step: "exec_entries q (e # es) w = exec_entries q es w1"
      using None by (simp add: stmt_Exec_ok w1_def)
    have c1: "calls w1 = calls w @ [(Exec q (row_of e), None)]"
      by (simp add: w1_def)
    from Cons.IH [of w1] obtain xs where
      xs: "calls (snd (exec_entries q es w1)) = calls w1 @ xs \<and>
        prefix (map fst xs) (map (\<lambda>e. Exec q (row_of e)) es) \<and>
        (fst (exec_entries q es w1) = None \<longrightarrow> map fst xs = map (\<lambda>e. Exec q (row_of e)) es)"
      ..
    note xs1 = conjunct1 [OF xs]
    note xs2 = conjunct1 [OF conjunct2 [OF xs]]
    note xs3 = conjunct2 [OF conjunct2 [OF xs]]
    have a: "calls (snd (exec_entries q (e # es) w)) = calls w @ ((Exec q (row_of e), None) # xs)"
      by (simp only: step xs1 c1 append_assoc append_Cons append_Nil)
    have b: "prefix (map fst ((Exec q (row_of e), None) # xs)) (map (\<lambda>e. Exec q (row_of e)) (e # es))"
      using xs2 by simp
    have c: "fst (exec_entries q (e # es) w) = None \<longrightarrow>
        map fst ((Exec q (row_of e), None) # xs) = map (\<lambda>e. Exec q (row_of e)) (e # es)"
      using xs3 by (simp only: step) simp
    show ?thesis
      by (intro exI [of _ "(Exec q (row_of e), None) # xs"] conjI a b c)
  next
    case (Some err)
    have "exec_entries q (e # es) w =
        (Some err, w\<lparr>script := tl (script w), calls := calls w @ [(Exec q (row_of e), Some err)]\<rparr>)"
      using Some by (simp add: stmt_Exec_fail)
    then have "calls (snd (exec_entries q (e # es) w)) = calls w @ [(Exec q (row_of e), Some err)] \<and>
        prefix (map fst [(Exec q (row_of e), Some err)]) (map (\<lambda>e. Exec q (row_of e)) (e # es)) \<and>
        (fst (exec_entries q (e # es) w) = None \<longrightarrow>
         map fst [(Exec q (row_of e), Some err)] = map (\<lambda>e. Exec q (row_of e)) (e # es))"
      by simp
    then show ?thesis by (rule exI)
  qed
qed

lemma exec_entries_kept:
  "committed (snd (exec_entries q es w)) = committed w \<and>
   released (snd (exec_entries q es w)) = released w"
proof (induction es arbitrary: w)
  case Nil
  show ?case by simp
next
  case (Cons e es)
  show ?case
  proof (cases "next_outcome (script w)")
    case None
    then show ?thesis
      using Cons.IH [of "w\<lparr>script := tl (script w), calls := calls w @ [(Exec q (row_of e), None)], pending := pending w @ [row_of e]\<rparr>"]
      by (simp add: stmt_Exec_ok)
  next
    case (Some err)
    then show ?thesis by (simp add: stmt_Exec_fail)
  qed
qed

lemma db_Begin_ok:
  "next_outcome (script w) = None \<Longrightarrow>
   db_Begin d w =
     (None, w\<lparr>script := tl (script w), calls := calls w @ [(Begin, None)], pending := []\<rparr>)"
  by (simp add: db_Begin_def issue_def)

lemma db_Begin_fail:
  "next_outcome (script w) = Some err \<Longrightarrow>
   db_Begin d w =
     (Some err, w\<lparr>script := tl (script w), calls := calls w @ [(Begin, Some err)]\<rparr>)"
  by (simp add: db_Begin_def issue_def)

lemma tx_Prepare_eq:
  "tx_Prepare q w =
     (next_outcome (script w),
      w\<lparr>script := tl (script w), calls := calls w @ [(Prepare q, next_outcome (script w))]\<rparr>)"
  by (simp add: tx_Prepare_def issue_def)

lemma tx_Commit_ok:
  "next_outcome (script w) = None \<Longrightarrow>
   tx_Commit w =
     (None, w\<lparr>script := tl (script w), calls := calls w @ [(Commit, None)],
              pending := [], committed := committed w @ [pending w]\<rparr>)"
  by (simp add: tx_Commit_def issue_def)

lemma tx_Commit_fail:
  "next_outcome (script w) = Some err \<Longrightarrow>
   tx_Commit w =
     (Some err, w\<lparr>script := tl (script w), calls := calls w @ [(Commit, Some err)]\<rparr>)"
  by (simp add: tx_Commit_def issue_def)

lemma first_failure_snoc:
  "first_failure (take (Suc n) rs) =
     (case first_failure (take n rs) of None \<Rightarrow> next_outcome (drop n rs) | Some err \<Rightarrow> Some err)"
proof (induction n arbitrary: rs)
  case 0
  show ?case by (cases rs rule: first_failure.cases) simp_all
next
  case (Suc n)
  show ?case
  proof (cases rs)
    case Nil
    then show ?thesis by simp
  next
    case (Cons r rs')
    show ?thesis
    proof (cases r)
      case None
      with Cons Suc.IH [of rs'] show ?thesis by (simp split: option.splits)
    next
      case (Some err)
      with Cons show ?thesis by simp
    qed
  qed
qed

lemma begun_alt:
  "w\<lparr>pending := [], script := tl (tl (script w)),
     calls := calls w @ [(Begin, None), (Prepare insert_sql, None)]\<rparr> = begun w"
  by (simp add: begun_def)

lemma flush_hook_kept: "fst (flush h w) \<noteq> None \<Longrightarrow> fst (snd (flush h w)) = h"
  by (simp add: flush_def split: prod.splits option.splits)

lemma flush_hook_cleared: "fst (flush h w) = None \<Longrightarrow> fst (snd (flush h w)) = h\<lparr>entries := []\<rparr>"
  by (simp add: flush_def split: prod.splits option.splits)

lemma flush_begin_fail:
  "next_outcome (script w) = Some err \<Longrightarrow>
   flush h w = (Some err, h, w\<lparr>script := tl (script w), calls := calls w @ [(Begin, Some err)]\<rparr>)"
  by (simp add: flush_def db_Begin_fail)

lemma flush_prepare_fail:
  "next_outcome (script w) = None \<Longrightarrow> next_outcome (tl (script w)) = Some err \<Longrightarrow>
   flush h w =
     (Some err, h,
      w\<lparr>script := tl (tl (script w)),
        calls := calls w @ [(Begin, None), (Prepare insert_sql, Some err)], pending := []\<rparr>)"
  by (simp add: flush_def db_Begin_ok tx_Prepare_eq)

lemma flush_begun:
  "next_outcome (script w) = None \<Longrightarrow> next_outcome (tl (script w)) = None \<Longrightarrow>
   flush h w =
     (case exec_entries insert_sql (entries h) (begun w) of
        (Some err, w3) \<Rightarrow> (Some err, h, stmt_Close w3)
      | (None, w3) \<Rightarrow>
          (case tx_Commit w3 of
             (Some err, w4) \<Rightarrow> (Some err, h, stmt_Close w4)
           | (None, w4) \<Rightarrow> (None, h\<lparr>entries := []\<rparr>, stmt_Close w4)))"
  by (simp add: flush_def db_Begin_ok tx_Prepare_eq begun_alt)

lemma flush_fst:
  "fst (flush h w) = first_failure (take (length (entries h) + 3) (script w))"
proof -
  let ?n = "length (entries h)"
  have n3: "?n + 3 = Suc (Suc (Suc ?n))" by simp
  show ?thesis
  proof (cases "next_outcome (script w)")
    case (Some err)
    then show ?thesis by (simp add: flush_begin_fail n3 first_failure_Suc del: take_Suc)
  next
    case None
    note b = None
    show ?thesis
    proof (cases "next_outcome (tl (script w))")
      case (Some err)
      with b show ?thesis by (simp add: flush_prepare_fail n3 first_failure_Suc)
    next
      case None
      note p = None
      have lhs: "first_failure (take (?n + 3) (script w)) =
          first_failure (take (Suc ?n) (script (begun w)))"
        using b p by (simp add: n3 first_failure_Suc begun_def)
      obtain r3 w3 where e: "exec_entries insert_sql (entries h) (begun w) = (r3, w3)"
        by (cases "exec_entries insert_sql (entries h) (begun w)")
      have r3: "r3 = first_failure (take ?n (script (begun w)))"
        using exec_entries_fst [of insert_sql "entries h" "begun w"] e by simp
      show ?thesis
      proof (cases r3)
        case (Some err)
        then have "fst (flush h w) = Some err"
          using b p e by (simp add: flush_begun)
        moreover have "first_failure (take ?n (script (begun w))) = Some err"
          using Some r3 by simp
        ultimately show ?thesis
          by (simp only: lhs first_failure_snoc option.case)
      next
        case None
        have ok: "fst (exec_entries insert_sql (entries h) (begun w)) = None"
          using e None by simp
        have s3: "script w3 = drop ?n (script (begun w))"
          using exec_entries_ok [OF ok] e by simp
        have ff: "first_failure (take ?n (script (begun w))) = None"
          using None r3 by simp
        have "fst (flush h w) = next_outcome (script w3)"
          using b p e None by (cases "next_outcome (script w3)")
             (simp_all add: flush_begun tx_Commit_ok tx_Commit_fail)
        then show ?thesis
          by (simp only: lhs first_failure_snoc ff option.case s3)
      qed
    qed
  qed
qed

lemma script_after:
  "tl (drop n (tl (tl rs))) = drop (n + 3) rs"
  by (simp add: drop_Suc tl_drop numeral_3_eq_3)

lemma flush_cases:
  obtains (begin_fail) err where
      "next_outcome (script w) = Some err"
      "flush h w = (Some err, h, w\<lparr>script := tl (script w), calls := calls w @ [(Begin, Some err)]\<rparr>)"
  | (prepare_fail) err where
      "next_outcome (script w) = None"
      "flush h w =
         (Some err, h,
          w\<lparr>script := tl (tl (script w)),
            calls := calls w @ [(Begin, None), (Prepare insert_sql, Some err)], pending := []\<rparr>)"
  | (exec_fail) err w3 ys where
      "next_outcome (script w) = None"
      "flush h w = (Some err, h, stmt_Close w3)"
      "calls w3 = calls w @ [(Begin, None), (Prepare insert_sql, None)] @ ys"
      "prefix (map fst ys) (map (\<lambda>e. Exec insert_sql (row_of e)) (entries h))"
      "committed w3 = committed w" "released w3 = released w"
  | (commit_fail) err where
      "next_outcome (script w) = None"
      "flush h w =
         (Some err, h,
          w\<lparr>script := drop (length (entries h) + 3) (script w),
            calls := calls w @ [(Begin, None), (Prepare insert_sql, None)]
                     @ map (\<lambda>e. (Exec insert_sql (row_of e), None)) (entries h)
                     @ [(Commit, Some err), (StmtClose, None)],
            pending := map row_of (entries h)\<rparr>)"
  | (ok)
      "next_outcome (script w) = None"
      "flush h w =
         (None, h\<lparr>entries := []\<rparr>,
          w\<lparr>script := drop (length (entries h) + 3) (script w),
            calls := calls w @ [(Begin, None), (Prepare insert_sql, None)]
                     @ map (\<lambda>e. (Exec insert_sql (row_of e), None)) (entries h)
                     @ [(Commit, None), (StmtClose, None)],
            pending := [],
            committed := committed w @ [map row_of (entries h)]\<rparr>)"
proof (cases "next_outcome (script w)")
  case (Some err)
  then show thesis using begin_fail [of err] by (simp add: flush_begin_fail)
next
  case None
  note b = None
  show thesis
  proof (cases "next_outcome (tl (script w))")
    case (Some err)
    with b show thesis using prepare_fail [of err] by (simp add: flush_prepare_fail)
  next
    case None
    note p = None
    obtain r3 w3 where e: "exec_entries insert_sql (entries h) (begun w) = (r3, w3)"
      by (cases "exec_entries insert_sql (entries h) (begun w)")
    show thesis
    proof (cases r3)
      case (Some err)
      have f: "flush h w = (Some err, h, stmt_Close w3)"
        using b p e Some by (simp add: flush_begun)
      from exec_entries_calls [of insert_sql "entries h" "begun w"] obtain ys where
        ys: "calls (snd (exec_entries insert_sql (entries h) (begun w))) = calls (begun w) @ ys \<and>
          prefix (map fst ys) (map (\<lambda>e. Exec insert_sql (row_of e)) (entries h)) \<and>
          (fst (exec_entries insert_sql (entries h) (begun w)) = None \<longrightarrow>
           map fst ys = map (\<lambda>e. Exec insert_sql (row_of e)) (entries h))"
        ..
      have c: "calls w3 = calls w @ [(Begin, None), (Prepare insert_sql, None)] @ ys"
        using conjunct1 [OF ys] e by (simp add: begun_def)
      have k: "committed w3 = committed w" "released w3 = released w"
        using exec_entries_kept [of insert_sql "entries h" "begun w"] e
        by (simp_all add: begun_def)
      show thesis
        by (rule exec_fail [OF b f c conjunct1 [OF conjunct2 [OF ys]] k])
    next
      case None
      have ok3: "fst (exec_entries insert_sql (entries h) (begun w)) = None"
        using e None by simp
      have w3: "w3 = (begun w)\<lparr>script := drop (length (entries h)) (script (begun w)),
          calls := calls (begun w) @ map (\<lambda>e. (Exec insert_sql (row_of e), None)) (entries h),
          pending := pending (begun w) @ map row_of (entries h)\<rparr>"
        using exec_entries_ok [OF ok3] e by simp
      show thesis
      proof (cases "next_outcome (script w3)")
        case (Some err)
        have "flush h w = (Some err, h, stmt_Close (w3\<lparr>script := tl (script w3),
            calls := calls w3 @ [(Commit, Some err)]\<rparr>))"
          using b p e None Some by (simp add: flush_begun tx_Commit_fail)
        then show thesis
          using commit_fail [of err] b
          by (simp add: w3 begun_def stmt_Close_def script_after)
      next
        case c: None
        have "flush h w = (None, h\<lparr>entries := []\<rparr>, stmt_Close (w3\<lparr>script := tl (script w3),
            calls := calls w3 @ [(Commit, None)], pending := [],
            committed := committed w3 @ [pending w3]\<rparr>))"
          using b p e None c by (simp add: flush_begun tx_Commit_ok)
        then show thesis
          using ok b
          by (simp add: w3 begun_def stmt_Close_def script_after)
      qed
    qed
  qed
qed

lemma Fire_below:
  "int (length (entries h)) + 1 < batchSize h \<Longrightarrow>
   Fire h e w = (None, h\<lparr>entries := entries h @ [e]\<rparr>, w)"
  by (simp add: Fire_def Let_def)

lemma Fire_trigger:
  "batchSize h \<le> int (length (entries h)) + 1 \<Longrightarrow>
   Fire h e w = flush (h\<lparr>entries := entries h @ [e]\<rparr>) w"
  by (simp add: Fire_def Let_def split: prod.splits option.splits)

lemma flush_ok:
  assumes "fst (flush h w) = None"
  shows "flush h w =
         (None, h\<lparr>entries := []\<rparr>,
          w\<lparr>script := drop (length (entries h) + 3) (script w),
            calls := calls w @ [(Begin, None), (Prepare insert_sql, None)]
                     @ map (\<lambda>e. (Exec insert_sql (row_of e), None)) (entries h)
                     @ [(Commit, None), (StmtClose, None)],
            pending := [],
            committed := committed w @ [map row_of (entries h)]\<rparr>)"
  using assms by (cases rule: flush_cases [of w h]) simp_all

lemma never_fails_flush:
  assumes "never_fails w"
  shows "fst (flush h w) = None" and "never_fails (snd (snd (flush h w)))"
proof -
  from assms have a: "list_all (\<lambda>r. r = None) (script w)"
    by (simp add: never_fails_def)
  then have "list_all (\<lambda>r. r = None) (take (length (entries h) + 3) (script w))"
    unfolding list_all_iff by (meson in_set_takeD)
  then show ok: "fst (flush h w) = None"
    by (simp add: flush_fst first_failure_None_iff)
  from a have "list_all (\<lambda>r. r = None) (drop (length (entries h) + 3) (script w))"
    unfolding list_all_iff by (meson in_set_dropD)
  then show "never_fails (snd (snd (flush h w)))"
    by (simp add: flush_ok [OF ok] never_fails_def)
qed

lemma count_Begin_flush:
  "length (filter (\<lambda>c. fst c = Begin)
     ([(Begin, None), (Prepare q, None)] @ map (\<lambda>e. (Exec q (row_of e), None)) es
        @ [(Commit, None), (StmtClose, None)])) = 1"
  by (simp add: filter_map o_def)

section \<open>Runs of \<open>Fire\<close>\<close>

lemma Fires_run:
  assumes B: "0 < B"
  shows "batchSize h = int B \<Longrightarrow> length (entries h) < B \<Longrightarrow>
    Fires h es w = (rs, h', w') \<Longrightarrow> list_all (\<lambda>r. r = None) rs \<Longrightarrow>
    batchSize h' = int B \<and> db h' = db h \<and>
    length (entries h') = (length (entries h) + length es) mod B \<and>
    (\<exists>bs cs. committed w' = committed w @ bs \<and>
       length bs = (length (entries h) + length es) div B \<and>
       list_all (\<lambda>b. length b = B) bs \<and>
       concat bs = map row_of (take (B * ((length (entries h) + length es) div B)) (entries h @ es)) \<and>
       entries h' = drop (B * ((length (entries h) + length es) div B)) (entries h @ es) \<and>
       calls w' = calls w @ cs \<and>
       length (filter (\<lambda>c. fst c = Begin) cs) = (length (entries h) + length es) div B)"
proof (induction es arbitrary: h w rs)
  case Nil
  then have "h' = h" "w' = w" by simp_all
  with Nil.prems(1,2) show ?case by simp
next
  case (Cons e es)
  let ?hA = "h\<lparr>entries := entries h @ [e]\<rparr>"
  obtain r h1 w1 where F: "Fire h e w = (r, h1, w1)"
    by (cases "Fire h e w")
  obtain rs1 h2 w2 where R: "Fires h1 es w1 = (rs1, h2, w2)"
    by (cases "Fires h1 es w1")
  from Cons.prems(3) F R have eqs: "rs = r # rs1" "h' = h2" "w' = w2"
    by simp_all
  from Cons.prems(4) eqs have r: "r = None" and rs1: "list_all (\<lambda>r. r = None) rs1"
    by simp_all
  show ?case
  proof (cases "length (entries h) + 1 < B")
    case True
    then have "int (length (entries h)) + 1 < batchSize h"
      using Cons.prems(1) by simp
    from Fire_below [OF this, of e w] F have h1: "h1 = ?hA" and w1: "w1 = w"
      by simp_all
    have "batchSize h1 = int B" "length (entries h1) < B"
      using h1 Cons.prems(1) True by simp_all
    from Cons.IH [OF this R [unfolded eqs(2,3) [symmetric]] rs1]
    show ?thesis
      by (simp add: h1 w1)
  next
    case False
    with Cons.prems(2) have len: "length (entries h) + 1 = B" by simp
    then have "batchSize h \<le> int (length (entries h)) + 1"
      using Cons.prems(1) by simp
    from Fire_trigger [OF this, of e w] F have fl: "flush ?hA w = (r, h1, w1)"
      by simp
    then have "fst (flush ?hA w) = None" using r by simp
    from flush_ok [OF this] fl
    have h1: "h1 = ?hA\<lparr>entries := []\<rparr>"
      and w1: "w1 = w\<lparr>script := drop (length (entries ?hA) + 3) (script w),
            calls := calls w @ [(Begin, None), (Prepare insert_sql, None)]
                     @ map (\<lambda>e. (Exec insert_sql (row_of e), None)) (entries ?hA)
                     @ [(Commit, None), (StmtClose, None)],
            pending := [],
            committed := committed w @ [map row_of (entries ?hA)]\<rparr>"
      by simp_all
    have pre: "batchSize h1 = int B" "length (entries h1) < B"
      using h1 Cons.prems(1) B by simp_all
    from Cons.IH [OF pre R [unfolded eqs(2,3) [symmetric]] rs1]
    have i1: "batchSize h' = int B" and i2: "db h' = db h1"
      and i3: "length (entries h') = (length (entries h1) + length es) mod B"
      and i4: "\<exists>bs cs. committed w' = committed w1 @ bs \<and>
       length bs = (length (entries h1) + length es) div B \<and>
       list_all (\<lambda>b. length b = B) bs \<and>
       concat bs = map row_of (take (B * ((length (entries h1) + length es) div B)) (entries h1 @ es)) \<and>
       entries h' = drop (B * ((length (entries h1) + length es) div B)) (entries h1 @ es) \<and>
       calls w' = calls w1 @ cs \<and>
       length (filter (\<lambda>c. fst c = Begin) cs) = (length (entries h1) + length es) div B"
      by simp_all
    from i4 obtain bs cs where j:
      "committed w' = committed w1 @ bs \<and>
       length bs = (length (entries h1) + length es) div B \<and>
       list_all (\<lambda>b. length b = B) bs \<and>
       concat bs = map row_of (take (B * ((length (entries h1) + length es) div B)) (entries h1 @ es)) \<and>
       entries h' = drop (B * ((length (entries h1) + length es) div B)) (entries h1 @ es) \<and>
       calls w' = calls w1 @ cs \<and>
       length (filter (\<lambda>c. fst c = Begin) cs) = (length (entries h1) + length es) div B"
      by (elim exE)
    let ?X = "[(Begin, None), (Prepare insert_sql, None)]
                     @ map (\<lambda>e. (Exec insert_sql (row_of e), None)) (entries ?hA)
                     @ [(Commit, None), (StmtClose, None)]"
    have e0: "entries h1 = []" using h1 by simp
    have total: "length (entries h) + length (e # es) = B + length es"
      using len by simp
    have dm: "(length (entries h) + length (e # es)) div B = Suc (length es div B)"
      "(length (entries h) + length (e # es)) mod B = length es mod B"
    proof -
      from B have nz: "B \<noteq> 0" by simp
      show "(length (entries h) + length (e # es)) div B = Suc (length es div B)"
        unfolding total using div_add_self1 [OF nz, of "length es"] by simp
      show "(length (entries h) + length (e # es)) mod B = length es mod B"
        unfolding total by simp
    qed
    have c1: "committed w' = committed w @ (map row_of (entries ?hA) # bs)"
      using j by (simp add: w1)
    have c2: "length (map row_of (entries ?hA) # bs) = (length (entries h) + length (e # es)) div B"
      using j by (simp only: dm) (simp add: e0)
    have c3: "list_all (\<lambda>b. length b = B) (map row_of (entries ?hA) # bs)"
      using j len by simp
    have lA: "length (entries ?hA) = B" using len by simp
    have c4: "concat (map row_of (entries ?hA) # bs) =
        map row_of (take (B * ((length (entries h) + length (e # es)) div B)) (entries h @ e # es))"
    proof -
      have "take (B + B * (length es div B)) (entries ?hA @ es) =
          entries ?hA @ take (B * (length es div B)) es"
        using lA by (simp only: take_append) simp
      then show ?thesis
        using j by (simp only: dm) (simp add: e0)
    qed
    have c4': "entries h' =
        drop (B * ((length (entries h) + length (e # es)) div B)) (entries h @ e # es)"
    proof -
      have "drop (B + B * (length es div B)) (entries ?hA @ es) =
          drop (B * (length es div B)) es"
        using lA by (simp only: drop_append) simp
      then show ?thesis
        using j by (simp only: dm) (simp add: e0)
    qed
    have c5: "calls w' = calls w @ (?X @ cs)"
      using j by (simp add: w1)
    have c6: "length (filter (\<lambda>c. fst c = Begin) (?X @ cs)) =
        (length (entries h) + length (e # es)) div B"
      using j count_Begin_flush [of insert_sql "entries ?hA"]
      by (simp only: dm filter_append length_append) (simp add: e0)
    have c7: "length (entries h') = (length (entries h) + length (e # es)) mod B"
      using i3 by (simp only: dm) (simp add: e0)
    have c8: "db h' = db h" using i2 h1 by simp
    show ?thesis
      by (intro conjI i1 c8 c7 exI [of _ "map row_of (entries ?hA) # bs"] exI [of _ "?X @ cs"]
          c1 c2 c3 c4 c4' c5 c6)
  qed
qed

lemma issued_app: "calls w' = calls w @ cs \<Longrightarrow> issued w w' = cs"
  by (simp add: issued_def)

lemma received_app: "committed w' = committed w @ bs \<Longrightarrow> received w w' = bs"
  by (simp add: received_def)

lemma never_fails_Fires:
  "never_fails w \<Longrightarrow> Fires h es w = (rs, h', w') \<Longrightarrow>
   list_all (\<lambda>r. r = None) rs \<and> never_fails w'"
proof (induction es arbitrary: h w rs)
  case Nil
  then show ?case by simp
next
  case (Cons e es)
  obtain r h1 w1 where F: "Fire h e w = (r, h1, w1)"
    by (cases "Fire h e w")
  obtain rs1 h2 w2 where R: "Fires h1 es w1 = (rs1, h2, w2)"
    by (cases "Fires h1 es w1")
  from Cons.prems(2) F R have eqs: "rs = r # rs1" "h' = h2" "w' = w2"
    by simp_all
  have "r = None \<and> never_fails w1"
  proof (cases "batchSize h \<le> int (length (entries h)) + 1")
    case True
    from Fire_trigger [OF True, of e w] F
    have "flush (h\<lparr>entries := entries h @ [e]\<rparr>) w = (r, h1, w1)" by simp
    with never_fails_flush [OF Cons.prems(1), of "h\<lparr>entries := entries h @ [e]\<rparr>"]
    show ?thesis by simp
  next
    case False
    then have "int (length (entries h)) + 1 < batchSize h" by simp
    from Fire_below [OF this, of e w] F Cons.prems(1) show ?thesis by simp
  qed
  with Cons.IH [of w1 h1 rs1] R eqs show ?case by simp
qed

lemma ceil_div_Suc:
  assumes "0 < B" "n mod B \<noteq> 0"
  shows "ceil_div n B = Suc (n div B)"
proof -
  define q where "q = n div B"
  define r where "r = n mod B"
  have n: "n = B * q + r" by (simp add: q_def r_def)
  have r: "0 < r" "r < B" using assms by (simp_all add: r_def)
  have "n + B - 1 = (r - 1) + Suc q * B"
    using r by (simp add: n mult.commute)
  then have "(n + B - 1) div B = (r - 1) div B + Suc q"
    using assms(1) by (simp only: div_mult_self1 [of B "r - 1" "Suc q"])
  with r show ?thesis by (simp add: ceil_div_def q_def)
qed

section \<open>What \<open>flush\<close> does to the store\<close>

lemma filter_Exec_map:
  "filter is_Exec (map fst (map (\<lambda>e. (Exec q (row_of e), r)) es)) = map (\<lambda>e. Exec q (row_of e)) es"
  by (induction es) simp_all

lemma prefix_all_Exec:
  assumes "prefix (map fst ys) (map (\<lambda>e. Exec q (row_of e)) es)"
  shows "list_all (\<lambda>c. is_Exec (fst c)) ys"
proof -
  from set_mono_prefix [OF assms]
  have "fst ` set ys \<subseteq> (\<lambda>e. Exec q (row_of e)) ` set es" by simp
  then have "\<forall>c \<in> set ys. is_Exec (fst c)" by fastforce
  then show ?thesis by (simp add: list_all_iff)
qed

lemma filter_all_Exec:
  "list_all (\<lambda>c. is_Exec (fst c)) ys \<Longrightarrow> filter is_Exec (map fst ys) = map fst ys"
  by (induction ys) simp_all

lemma all_Exec_no_Rollback:
  "list_all (\<lambda>c. is_Exec (fst c)) ys \<Longrightarrow>
   list_all (\<lambda>c. fst c \<noteq> Rollback) ys \<and> (Commit, None) \<notin> set ys"
  by (induction ys) auto

lemma triple_eqD: "f = (a, b, c) \<Longrightarrow> f = (a', b', c') \<Longrightarrow> a' = a \<and> b' = b \<and> c' = c"
  by simp

text \<open>What \<open>flush\<close> leaves behind, whatever its result.\<close>

lemma flush_effect:
  assumes "flush h w = (r, h', w')"
  shows "calls w' = calls w @ issued w w'"
    and "prefix (filter is_Exec (map fst (issued w w'))) (map (\<lambda>e. Exec insert_sql (row_of e)) (entries h))"
    and "list_all (\<lambda>c. fst c \<noteq> Rollback) (issued w w')"
    and "r \<noteq> None \<Longrightarrow> (Commit, None) \<notin> set (issued w w')"
    and "r \<noteq> None \<Longrightarrow> committed w' = committed w"
    and "released w' = released w"
    and "issued w w' \<noteq> [] \<and> fst (hd (issued w w')) = Begin \<and> snd (hd (issued w w')) = next_outcome (script w)"
proof -
  have "calls w' = calls w @ issued w w' \<and>
    prefix (filter is_Exec (map fst (issued w w'))) (map (\<lambda>e. Exec insert_sql (row_of e)) (entries h)) \<and>
    list_all (\<lambda>c. fst c \<noteq> Rollback) (issued w w') \<and>
    (r \<noteq> None \<longrightarrow> (Commit, None) \<notin> set (issued w w')) \<and>
    (r \<noteq> None \<longrightarrow> committed w' = committed w) \<and>
    released w' = released w \<and>
    issued w w' \<noteq> [] \<and> fst (hd (issued w w')) = Begin \<and> snd (hd (issued w w')) = next_outcome (script w)"
  proof (cases rule: flush_cases [of w h])
    case (begin_fail err)
    note t = triple_eqD [OF begin_fail(2) assms]
    show ?thesis
      using begin_fail(1)
      by (simp add: issued_def conjunct1 [OF t] conjunct2 [OF conjunct2 [OF t]])
  next
    case (prepare_fail err)
    note t = triple_eqD [OF prepare_fail(2) assms]
    show ?thesis
      using prepare_fail(1)
      by (simp add: issued_def conjunct1 [OF t] conjunct2 [OF conjunct2 [OF t]])
  next
    case (exec_fail err w3 ys)
    note t = triple_eqD [OF exec_fail(2) assms]
    note w' = conjunct2 [OF conjunct2 [OF t]] and r = conjunct1 [OF t]
    have i: "issued w w' = [(Begin, None), (Prepare insert_sql, None)] @ ys @ [(StmtClose, None)]"
      using exec_fail(3) by (simp add: issued_def w' stmt_Close_def)
    note ex = prefix_all_Exec [OF exec_fail(4)]
    have a: "calls w' = calls w @ issued w w'"
      using exec_fail(3) by (simp add: i) (simp add: w' stmt_Close_def)
    have b: "prefix (filter is_Exec (map fst (issued w w')))
        (map (\<lambda>e. Exec insert_sql (row_of e)) (entries h))"
      using exec_fail(4) by (simp add: i filter_all_Exec [OF ex])
    have c: "list_all (\<lambda>c. fst c \<noteq> Rollback) (issued w w')"
      using all_Exec_no_Rollback [OF ex] by (simp add: i)
    have d: "(Commit, None) \<notin> set (issued w w')"
      using all_Exec_no_Rollback [OF ex] by (simp add: i)
    have e: "committed w' = committed w" "released w' = released w"
      using exec_fail(5,6) by (simp_all add: w' stmt_Close_def)
    have f: "issued w w' \<noteq> [] \<and> fst (hd (issued w w')) = Begin \<and>
        snd (hd (issued w w')) = next_outcome (script w)"
      using exec_fail(1) by (simp add: i)
    from a b c d e f show ?thesis by simp
  next
    case (commit_fail err)
    note t = triple_eqD [OF commit_fail(2) assms]
    note w' = conjunct2 [OF conjunct2 [OF t]] and r = conjunct1 [OF t]
    have i: "issued w w' = [(Begin, None), (Prepare insert_sql, None)]
                     @ map (\<lambda>e. (Exec insert_sql (row_of e), None)) (entries h)
                     @ [(Commit, Some err), (StmtClose, None)]"
      by (simp add: issued_def w')
    have a: "calls w' = calls w @ issued w w'"
      by (simp add: i) (simp add: w')
    have b: "filter is_Exec (map fst (issued w w')) =
        map (\<lambda>e. Exec insert_sql (row_of e)) (entries h)"
      using filter_Exec_map [of insert_sql None "entries h"] by (simp add: i)
    have c: "list_all (\<lambda>c. fst c \<noteq> Rollback) (issued w w')"
      by (simp add: i list_all_iff)
    have d: "(Commit, None) \<notin> set (issued w w')"
      by (auto simp: i)
    have e: "committed w' = committed w" "released w' = released w"
      by (simp_all add: w')
    have f: "issued w w' \<noteq> [] \<and> fst (hd (issued w w')) = Begin \<and>
        snd (hd (issued w w')) = next_outcome (script w)"
      using commit_fail(1) by (simp add: i)
    from a c d e f show ?thesis by (simp add: b)
  next
    case ok
    note t = triple_eqD [OF ok(2) assms]
    note w' = conjunct2 [OF conjunct2 [OF t]] and r = conjunct1 [OF t]
    have i: "issued w w' = [(Begin, None), (Prepare insert_sql, None)]
                     @ map (\<lambda>e. (Exec insert_sql (row_of e), None)) (entries h)
                     @ [(Commit, None), (StmtClose, None)]"
      by (simp add: issued_def w')
    have a: "calls w' = calls w @ issued w w'"
      by (simp add: i) (simp add: w')
    have b: "filter is_Exec (map fst (issued w w')) =
        map (\<lambda>e. Exec insert_sql (row_of e)) (entries h)"
      using filter_Exec_map [of insert_sql None "entries h"] by (simp add: i)
    have c: "list_all (\<lambda>c. fst c \<noteq> Rollback) (issued w w')"
      by (simp add: i list_all_iff)
    have e: "released w' = released w"
      by (simp_all add: w')
    have f: "issued w w' \<noteq> [] \<and> fst (hd (issued w w')) = Begin \<and>
        snd (hd (issued w w')) = next_outcome (script w)"
      using ok(1) by (simp add: i)
    from a c e f r show ?thesis by (simp add: b)
  qed
  then show "calls w' = calls w @ issued w w'"
    and "prefix (filter is_Exec (map fst (issued w w'))) (map (\<lambda>e. Exec insert_sql (row_of e)) (entries h))"
    and "list_all (\<lambda>c. fst c \<noteq> Rollback) (issued w w')"
    and "r \<noteq> None \<Longrightarrow> (Commit, None) \<notin> set (issued w w')"
    and "r \<noteq> None \<Longrightarrow> committed w' = committed w"
    and "released w' = released w"
    and "issued w w' \<noteq> [] \<and> fst (hd (issued w w')) = Begin \<and> snd (hd (issued w w')) = next_outcome (script w)"
    by simp_all
qed

lemmas store_defs =
  flush_def db_Begin_def tx_Prepare_def stmt_Exec_def tx_Commit_def stmt_Close_def issue_def
  fresh_store_def new_hook_def main_entry_def row_of_def

lemma pair3: "fst x = a \<Longrightarrow> x = (a, fst (snd x), snd (snd x))"
  by (simp add: prod_eq_iff)

section \<open>Properties of \<open>flush\<close> and of the construction\<close>

text \<open>
  C2. A failing flush hands its error to the caller and clears nothing.
  \<open>flush\<close> returns the error of the first store call that fails among the calls it makes:
  \<open>Begin\<close>, \<open>Prepare\<close>, one \<open>Exec\<close> for each buffered entry, \<open>Commit\<close> (the first
  \<open>length (entries h) + 3\<close> outcomes of the script, in this order), and it returns success
  when none fails. When it returns an error the hook is what it was before the call.
  \<open>Fire\<close> calls \<open>flush\<close> when the buffer has reached the batch size; when \<open>Fire\<close> returns
  an error, its whole result is the result of that \<open>flush\<close> on the buffer with the new entry
  appended, and the buffer it leaves is the old buffer with the new entry at its end.
\<close>

theorem flush_error_returned_buffer_kept:
  "fst (flush h w) = first_failure (take (length (entries h) + 3) (script w)) \<and>
   (fst (flush h w) \<noteq> None \<longrightarrow> fst (snd (flush h w)) = h) \<and>
   (batchSize h \<le> int (length (entries h)) + 1 \<longrightarrow>
      Fire h e w = flush (h\<lparr>entries := entries h @ [e]\<rparr>) w) \<and>
   (fst (Fire h e w) \<noteq> None \<longrightarrow>
      Fire h e w = flush (h\<lparr>entries := entries h @ [e]\<rparr>) w \<and>
      fst (snd (Fire h e w)) = h\<lparr>entries := entries h @ [e]\<rparr>)"
proof (intro conjI impI)
  show "fst (flush h w) = first_failure (take (length (entries h) + 3) (script w))"
    by (rule flush_fst)
  show "fst (snd (flush h w)) = h" if "fst (flush h w) \<noteq> None"
    using that by (rule flush_hook_kept)
  show "Fire h e w = flush (h\<lparr>entries := entries h @ [e]\<rparr>) w"
    if "batchSize h \<le> int (length (entries h)) + 1"
    using that by (rule Fire_trigger)
  assume err: "fst (Fire h e w) \<noteq> None"
  have trig: "batchSize h \<le> int (length (entries h)) + 1"
  proof (rule ccontr)
    assume "\<not> batchSize h \<le> int (length (entries h)) + 1"
    then have "int (length (entries h)) + 1 < batchSize h" by simp
    from Fire_below [OF this, of e w] err show False by simp
  qed
  show eq: "Fire h e w = flush (h\<lparr>entries := entries h @ [e]\<rparr>) w"
    using trig by (rule Fire_trigger)
  have "fst (flush (h\<lparr>entries := entries h @ [e]\<rparr>) w) \<noteq> None"
    using err unfolding eq .
  then have "fst (snd (flush (h\<lparr>entries := entries h @ [e]\<rparr>) w)) =
      h\<lparr>entries := entries h @ [e]\<rparr>"
    by (rule flush_hook_kept)
  then show "fst (snd (Fire h e w)) = h\<lparr>entries := entries h @ [e]\<rparr>"
    unfolding eq .
qed

theorem flush_error_returned_buffer_kept_witness:
  "batchSize (new_hook 1) \<le> int (length (entries (new_hook 1))) + 1 \<and>
   fst (Fire (new_hook 1) (main_entry id 0)
         (fresh_store [None, None, Some (OtherError ''insert failed'')]))
     = Some (OtherError ''insert failed'') \<and>
   entries (fst (snd (Fire (new_hook 1) (main_entry id 0)
         (fresh_store [None, None, Some (OtherError ''insert failed'')]))))
     = [main_entry id 0]"
proof -
  let ?h = "new_hook 1"
  let ?e = "main_entry id 0"
  let ?w = "fresh_store [None, None, Some (OtherError ''insert failed'')]"
  let ?hA = "?h\<lparr>entries := entries ?h @ [?e]\<rparr>"
  note t1 = flush_error_returned_buffer_kept [of ?h ?w ?e]
  note t2 = flush_error_returned_buffer_kept [of ?hA ?w ?e]
  have trig: "batchSize ?h \<le> int (length (entries ?h)) + 1"
    by (simp add: new_hook_def)
  have eq: "Fire ?h ?e ?w = flush ?hA ?w"
    by (rule mp [OF conjunct1 [OF conjunct2 [OF conjunct2 [OF t1]]] trig])
  have ff: "fst (flush ?hA ?w) = Some (OtherError ''insert failed'')"
    unfolding conjunct1 [OF t2] by (simp add: new_hook_def fresh_store_def)
  then have "fst (snd (flush ?hA ?w)) = ?hA"
    using conjunct1 [OF conjunct2 [OF t2]] by simp
  then have "entries (fst (snd (flush ?hA ?w))) = [?e]"
    by (simp add: new_hook_def)
  with trig ff show ?thesis
    unfolding eq by (intro conjI)
qed

text \<open>
  C10. No rollback on the error paths of \<open>flush\<close>. When \<open>flush\<close> returns an error, the
  calls it has issued contain no \<open>Rollback\<close> and no successful \<open>Commit\<close>, and the server has
  accepted no new batch. When \<open>Begin\<close> had succeeded (the failure is in \<open>Prepare\<close>, in an
  \<open>Exec\<close> or in \<open>Commit\<close>), the first call issued is that successful \<open>Begin\<close>: the
  transaction was opened and the hook neither commits it nor rolls it back.
\<close>

theorem flush_error_no_rollback:
  assumes "flush h w = (Some err, h', w')"
  shows "calls w' = calls w @ issued w w' \<and>
    list_all (\<lambda>c. fst c \<noteq> Rollback) (issued w w') \<and>
    (Commit, None) \<notin> set (issued w w') \<and>
    committed w' = committed w \<and>
    (next_outcome (script w) = None \<longrightarrow> hd (issued w w') = (Begin, None))"
proof -
  note f = flush_effect [OF assms]
  have "hd (issued w w') = (Begin, None)" if "next_outcome (script w) = None"
    using f(7) that by (simp add: prod_eq_iff)
  with f(1) f(3) f(4) f(5) show ?thesis by simp
qed

theorem flush_error_no_rollback_witness:
  "fst (flush ((new_hook 5)\<lparr>entries := [main_entry id 0]\<rparr>)
         (fresh_store [None, None, None, Some (OtherError ''commit failed'')]))
     = Some (OtherError ''commit failed'') \<and>
   next_outcome (script (fresh_store [None, None, None, Some (OtherError ''commit failed'')])) = None \<and>
   issued (fresh_store [None, None, None, Some (OtherError ''commit failed'')])
     (snd (snd (flush ((new_hook 5)\<lparr>entries := [main_entry id 0]\<rparr>)
         (fresh_store [None, None, None, Some (OtherError ''commit failed'')]))))
     = [(Begin, None), (Prepare insert_sql, None),
        (Exec insert_sql [TimeV 0, TextV ''info'', TextV ''This is an info log entry''], None),
        (Commit, Some (OtherError ''commit failed'')), (StmtClose, None)] \<and>
   list_all (\<lambda>c. fst c \<noteq> Rollback)
     (issued (fresh_store [None, None, None, Some (OtherError ''commit failed'')])
       (snd (snd (flush ((new_hook 5)\<lparr>entries := [main_entry id 0]\<rparr>)
         (fresh_store [None, None, None, Some (OtherError ''commit failed'')]))))) \<and>
   committed (snd (snd (flush ((new_hook 5)\<lparr>entries := [main_entry id 0]\<rparr>)
         (fresh_store [None, None, None, Some (OtherError ''commit failed'')])))) = []"
proof -
  let ?h = "(new_hook 5)\<lparr>entries := [main_entry id 0]\<rparr>"
  let ?w = "fresh_store [None, None, None, Some (OtherError ''commit failed'')]"
  have e: "fst (flush ?h ?w) = Some (OtherError ''commit failed'')"
    by (simp add: store_defs)
  have i: "issued ?w (snd (snd (flush ?h ?w)))
     = [(Begin, None), (Prepare insert_sql, None),
        (Exec insert_sql [TimeV 0, TextV ''info'', TextV ''This is an info log entry''], None),
        (Commit, Some (OtherError ''commit failed'')), (StmtClose, None)]"
    by (simp add: store_defs issued_def)
  have n: "next_outcome (script ?w) = None" "committed ?w = []"
    by (simp_all add: fresh_store_def)
  from flush_error_no_rollback [OF pair3 [OF e]] e i n show ?thesis
    by simp
qed




text \<open>
  C4. Flushing an empty buffer. It is not a no-op and it can fail: the claim that it always
  succeeds is refuted by a store whose \<open>Begin\<close> fails.
\<close>

theorem flush_empty_buffer_counterexample:
  "entries (new_hook 5) = [] \<and>
   fst (flush (new_hook 5) (fresh_store [Some (OtherError ''driver: bad connection'')]))
     = Some (OtherError ''driver: bad connection'') \<and>
   issued (fresh_store [Some (OtherError ''driver: bad connection'')])
     (snd (snd (flush (new_hook 5) (fresh_store [Some (OtherError ''driver: bad connection'')]))))
     = [(Begin, Some (OtherError ''driver: bad connection''))]"
  by (simp add: store_defs issued_def)

text \<open>
  C4, amended. On an empty buffer \<open>flush\<close> issues no \<open>Exec\<close> and leaves the buffer empty. It
  still begins a transaction first, and then prepares the statement and commits: it returns
  the first error among these three calls, and success when none fails; on success the calls
  issued are \<open>Begin\<close>, \<open>Prepare\<close>, \<open>Commit\<close> and the close of the statement, and the server
  has accepted one batch of no rows.
\<close>

theorem flush_empty_buffer:
  assumes "entries h = []" "flush h w = (r, h', w')"
  shows "r = first_failure (take 3 (script w)) \<and>
    entries h' = [] \<and>
    filter is_Exec (map fst (issued w w')) = [] \<and>
    issued w w' \<noteq> [] \<and> fst (hd (issued w w')) = Begin \<and>
    (r = None \<longrightarrow>
       issued w w' = [(Begin, None), (Prepare insert_sql, None), (Commit, None), (StmtClose, None)] \<and>
       committed w' = committed w @ [[]]) \<and>
    (r \<noteq> None \<longrightarrow> committed w' = committed w)"
proof (intro conjI impI)
  note f = flush_effect [OF assms(2)]
  from flush_fst [of h w] assms show "r = first_failure (take 3 (script w))"
    by simp
  show "entries h' = []"
  proof (cases r)
    case None
    with assms(2) have "fst (flush h w) = None" by simp
    from flush_hook_cleared [OF this] assms(2) show ?thesis by simp
  next
    case (Some err)
    with assms(2) have "fst (flush h w) \<noteq> None" by simp
    from flush_hook_kept [OF this] assms show ?thesis by simp
  qed
  from f(2) show "filter is_Exec (map fst (issued w w')) = []"
    by (simp add: assms(1))
  from f(7) show "issued w w' \<noteq> []" and "fst (hd (issued w w')) = Begin"
    by simp_all
  {
    assume "r = None"
    with assms(2) have "fst (flush h w) = None" by simp
    note t = triple_eqD [OF flush_ok [OF this] assms(2)]
    note w' = conjunct2 [OF conjunct2 [OF t]]
    show "issued w w' = [(Begin, None), (Prepare insert_sql, None), (Commit, None), (StmtClose, None)]"
      by (simp add: w' issued_def assms(1))
    show "committed w' = committed w @ [[]]"
      by (simp add: w' assms(1))
  }
  {
    assume "r \<noteq> None"
    from f(5) [OF this] show "committed w' = committed w" .
  }
qed

theorem flush_empty_buffer_witness:
  "entries (new_hook 5) = [] \<and>
   fst (flush (new_hook 5) (fresh_store [])) = None \<and>
   issued (fresh_store []) (snd (snd (flush (new_hook 5) (fresh_store []))))
     = [(Begin, None), (Prepare insert_sql, None), (Commit, None), (StmtClose, None)] \<and>
   committed (snd (snd (flush (new_hook 5) (fresh_store [])))) = [[]]"
proof -
  have a: "entries (new_hook 5) = []" by (simp add: new_hook_def)
  have e: "fst (flush (new_hook 5) (fresh_store [])) = None"
    by (simp add: store_defs)
  note t = flush_empty_buffer [OF a pair3 [OF e]]
  note s = mp [OF conjunct1 [OF conjunct2 [OF conjunct2 [OF conjunct2 [OF conjunct2 [OF conjunct2 [OF t]]]]]] refl]
  have "committed (snd (snd (flush (new_hook 5) (fresh_store [])))) = [[]]"
    using conjunct2 [OF s] by (simp add: fresh_store_def)
  with a e conjunct1 [OF s] show ?thesis by (intro conjI)
qed

text \<open>The three ways \<open>NewClickHouseHook\<close> can go.\<close>

lemma NewClickHouseHook_open_fail:
  "next_outcome (script w) = Some err \<Longrightarrow>
   NewClickHouseHook dsn bs w =
     Returns (Inl err)
       (w\<lparr>script := tl (script w), calls := calls w @ [(Open ''clickhouse'' dsn, Some err)]\<rparr>)"
  by (simp add: NewClickHouseHook_def sql_Open_def issue_def)

lemma NewClickHouseHook_ping_fail:
  "next_outcome (script w) = None \<Longrightarrow> next_outcome (tl (script w)) = Some err \<Longrightarrow>
   NewClickHouseHook dsn bs w =
     Exits (case err of Exception c m st \<Rightarrow> FatalException c m st
                      | OtherError m \<Rightarrow> FatalError (OtherError m))
       (w\<lparr>script := tl (tl (script w)),
          calls := calls w @ [(Open ''clickhouse'' dsn, None), (Ping, Some err)]\<rparr>)"
  by (cases err) (simp_all add: NewClickHouseHook_def sql_Open_def db_Ping_def issue_def)

lemma NewClickHouseHook_ok:
  "next_outcome (script w) = None \<Longrightarrow> next_outcome (tl (script w)) = None \<Longrightarrow>
   NewClickHouseHook dsn bs w =
     Returns (Inr \<lparr>db = DB ''clickhouse'' dsn, entries = [], batchSize = bs\<rparr>)
       (w\<lparr>script := tl (tl (script w)),
          calls := calls w @ [(Open ''clickhouse'' dsn, None), (Ping, None)]\<rparr>)"
  by (simp add: NewClickHouseHook_def sql_Open_def db_Ping_def issue_def)

text \<open>
  C3. Construction against a store that cannot be reached. The handle opens (opening does not
  connect) and the ping fails: \<open>NewClickHouseHook\<close> does not return an error to its caller,
  it ends the process.
\<close>

theorem NewClickHouseHook_ping_failure_counterexample:
  "NewClickHouseHook main_dsn 5
     (fresh_store [None, Some (OtherError ''dial tcp 127.0.0.1:9000: connect: connection refused'')])
   = Exits (FatalError (OtherError ''dial tcp 127.0.0.1:9000: connect: connection refused''))
       \<lparr>script = [],
        calls = [(Open ''clickhouse'' main_dsn, None),
                 (Ping, Some (OtherError ''dial tcp 127.0.0.1:9000: connect: connection refused''))],
        pending = [], committed = [], released = False\<rparr>"
  by (simp add: NewClickHouseHook_def sql_Open_def db_Ping_def issue_def fresh_store_def)

text \<open>
  C3, amended. When opening the handle fails, \<open>NewClickHouseHook\<close> returns that error and no
  hook. When the handle opens and the ping fails, \<open>NewClickHouseHook\<close> does not return: it
  logs the error (the code, message and stack trace of a ClickHouse exception, the error
  itself otherwise) and ends the process; no hook is created. When both succeed it returns
  a hook with an empty buffer and the given batch size.
\<close>

theorem NewClickHouseHook_outcomes:
  "(next_outcome (script w) = Some err \<longrightarrow>
      NewClickHouseHook dsn bs w =
        Returns (Inl err)
          (w\<lparr>script := tl (script w), calls := calls w @ [(Open ''clickhouse'' dsn, Some err)]\<rparr>)) \<and>
   (next_outcome (script w) = None \<and> next_outcome (tl (script w)) = Some err \<longrightarrow>
      NewClickHouseHook dsn bs w =
        Exits (case err of Exception c m st \<Rightarrow> FatalException c m st
                         | OtherError m \<Rightarrow> FatalError (OtherError m))
          (w\<lparr>script := tl (tl (script w)),
             calls := calls w @ [(Open ''clickhouse'' dsn, None), (Ping, Some err)]\<rparr>)) \<and>
   (next_outcome (script w) = None \<and> next_outcome (tl (script w)) = None \<longrightarrow>
      NewClickHouseHook dsn bs w =
        Returns (Inr \<lparr>db = DB ''clickhouse'' dsn, entries = [], batchSize = bs\<rparr>)
          (w\<lparr>script := tl (tl (script w)),
             calls := calls w @ [(Open ''clickhouse'' dsn, None), (Ping, None)]\<rparr>))"
proof (intro conjI impI)
  assume "next_outcome (script w) = Some err"
  then show "NewClickHouseHook dsn bs w =
        Returns (Inl err)
          (w\<lparr>script := tl (script w), calls := calls w @ [(Open ''clickhouse'' dsn, Some err)]\<rparr>)"
    by (rule NewClickHouseHook_open_fail)
next
  assume "next_outcome (script w) = None \<and> next_outcome (tl (script w)) = Some err"
  then show "NewClickHouseHook dsn bs w =
        Exits (case err of Exception c m st \<Rightarrow> FatalException c m st
                         | OtherError m \<Rightarrow> FatalError (OtherError m))
          (w\<lparr>script := tl (tl (script w)),
             calls := calls w @ [(Open ''clickhouse'' dsn, None), (Ping, Some err)]\<rparr>)"
    by (simp add: NewClickHouseHook_ping_fail)
next
  assume "next_outcome (script w) = None \<and> next_outcome (tl (script w)) = None"
  then show "NewClickHouseHook dsn bs w =
        Returns (Inr \<lparr>db = DB ''clickhouse'' dsn, entries = [], batchSize = bs\<rparr>)
          (w\<lparr>script := tl (tl (script w)),
             calls := calls w @ [(Open ''clickhouse'' dsn, None), (Ping, None)]\<rparr>)"
    by (simp add: NewClickHouseHook_ok)
qed

theorem NewClickHouseHook_outcomes_witness:
  "NewClickHouseHook main_dsn 5 (fresh_store [Some (OtherError ''unknown driver'')]) =
     Returns (Inl (OtherError ''unknown driver''))
       \<lparr>script = [], calls = [(Open ''clickhouse'' main_dsn, Some (OtherError ''unknown driver''))],
        pending = [], committed = [], released = False\<rparr> \<and>
   NewClickHouseHook main_dsn 5 (fresh_store [None, Some (Exception 516 ''Authentication failed'' [])]) =
     Exits (FatalException 516 ''Authentication failed'' [])
       \<lparr>script = [],
        calls = [(Open ''clickhouse'' main_dsn, None),
                 (Ping, Some (Exception 516 ''Authentication failed'' []))],
        pending = [], committed = [], released = False\<rparr> \<and>
   NewClickHouseHook main_dsn 5 (fresh_store []) =
     Returns (Inr \<lparr>db = DB ''clickhouse'' main_dsn, entries = [], batchSize = 5\<rparr>)
       \<lparr>script = [], calls = [(Open ''clickhouse'' main_dsn, None), (Ping, None)],
        pending = [], committed = [], released = False\<rparr>"
  using NewClickHouseHook_outcomes
      [of "fresh_store [Some (OtherError ''unknown driver'')]" "OtherError ''unknown driver''" main_dsn 5]
    NewClickHouseHook_outcomes
      [of "fresh_store [None, Some (Exception 516 ''Authentication failed'' [])]"
          "Exception 516 ''Authentication failed'' []" main_dsn 5]
    NewClickHouseHook_outcomes [of "fresh_store []" "OtherError []" main_dsn 5]
  by (simp add: fresh_store_def)

section \<open>Runs of appends\<close>

text \<open>With a batch size of zero or less, on a store that does not fail.\<close>

lemma Fires_nonpositive:
  assumes bs: "bs \<le> 0"
  shows "batchSize h = bs \<Longrightarrow> entries h = [] \<Longrightarrow> never_fails w \<Longrightarrow>
    Fires h es w = (rs, h', w') \<Longrightarrow>
    list_all (\<lambda>r. r = None) rs \<and> entries h' = [] \<and> batchSize h' = bs \<and>
    committed w' = committed w @ map (\<lambda>e. [row_of e]) es \<and>
    (\<exists>cs. calls w' = calls w @ cs \<and> length (filter (\<lambda>c. fst c = Begin) cs) = length es)"
proof (induction es arbitrary: h w rs)
  case Nil
  then show ?case by simp
next
  case (Cons e es)
  let ?hA = "h\<lparr>entries := entries h @ [e]\<rparr>"
  obtain r h1 w1 where F: "Fire h e w = (r, h1, w1)"
    by (cases "Fire h e w")
  obtain rs1 h2 w2 where R: "Fires h1 es w1 = (rs1, h2, w2)"
    by (cases "Fires h1 es w1")
  from Cons.prems(4) F R have eqs: "rs = r # rs1" "h' = h2" "w' = w2"
    by simp_all
  have "batchSize h \<le> int (length (entries h)) + 1"
    using Cons.prems(1) bs by simp
  from Fire_trigger [OF this, of e w] F have fl: "flush ?hA w = (r, h1, w1)"
    by simp
  note nf = never_fails_flush [OF Cons.prems(3), of ?hA]
  from nf(1) fl have r: "r = None" by simp
  from nf(2) fl have nf1: "never_fails w1" by simp
  note t = triple_eqD [OF flush_ok [OF nf(1)] fl]
  note h1 = conjunct1 [OF conjunct2 [OF t]] and w1 = conjunct2 [OF conjunct2 [OF t]]
  have pre: "batchSize h1 = bs" "entries h1 = []"
    using Cons.prems(1) by (simp_all add: h1)
  note ih = Cons.IH [OF pre nf1 R [unfolded eqs(2,3) [symmetric]]]
  from conjunct2 [OF conjunct2 [OF conjunct2 [OF conjunct2 [OF ih]]]] obtain cs where
    cs: "calls w' = calls w1 @ cs \<and> length (filter (\<lambda>c. fst c = Begin) cs) = length es"
    ..
  let ?X = "[(Begin, None), (Prepare insert_sql, None)]
                     @ map (\<lambda>e. (Exec insert_sql (row_of e), None)) (entries ?hA)
                     @ [(Commit, None), (StmtClose, None)]"
  have c1: "list_all (\<lambda>r. r = None) rs"
    using ih r by (simp add: eqs(1))
  have c2: "entries h' = []" "batchSize h' = bs"
    using ih by simp_all
  have c3: "committed w' = committed w @ map (\<lambda>e. [row_of e]) (e # es)"
    using conjunct1 [OF conjunct2 [OF conjunct2 [OF conjunct2 [OF ih]]]] Cons.prems(2)
    by (simp add: w1)
  have c4: "calls w' = calls w @ (?X @ cs)"
    using cs by (simp add: w1)
  have c5: "length (filter (\<lambda>c. fst c = Begin) (?X @ cs)) = length (e # es)"
    using cs count_Begin_flush [of insert_sql "entries ?hA"]
    by (simp only: filter_append length_append) simp
  show ?case
    by (intro conjI c1 c2 c3 exI [of _ "?X @ cs"] c4 c5)
qed

lemma flushes_app:
  "calls w' = calls w @ cs \<Longrightarrow> flushes w w' = length (filter (\<lambda>c. fst c = Begin) cs)"
  by (simp add: flushes_def issued_def)

lemmas run_defs = Fires.simps Fire_def Let_def store_defs

text \<open>What one call of \<open>Fire\<close> leaves, and a run of calls that all return success.\<close>

lemma Fire_result:
  assumes "0 < batchSize h" "Fire h e w = (r, h', w')"
  shows "batchSize h' = batchSize h \<and>
     (r = None \<longrightarrow> int (length (entries h')) < batchSize h) \<and>
     (r \<noteq> None \<longrightarrow> entries h' = entries h @ [e] \<and> batchSize h \<le> int (length (entries h')))"
proof (cases "batchSize h \<le> int (length (entries h)) + 1")
  case True
  let ?hA = "h\<lparr>entries := entries h @ [e]\<rparr>"
  from Fire_trigger [OF True, of e w] assms(2) have fl: "flush ?hA w = (r, h', w')"
    by simp
  show ?thesis
  proof (cases r)
    case None
    with fl have "fst (flush ?hA w) = None" by simp
    from flush_hook_cleared [OF this] fl have "h' = ?hA\<lparr>entries := []\<rparr>" by simp
    with None assms(1) show ?thesis by simp
  next
    case (Some err)
    with fl have "fst (flush ?hA w) \<noteq> None" by simp
    from flush_hook_kept [OF this] fl have "h' = ?hA" by simp
    with Some True show ?thesis by simp
  qed
next
  case False
  then have "int (length (entries h)) + 1 < batchSize h" by simp
  from Fire_below [OF this, of e w] assms(2) this show ?thesis by auto
qed

lemma Fires_below:
  "0 < batchSize h \<Longrightarrow> int (length (entries h)) < batchSize h \<Longrightarrow>
   Fires h es w = (rs, h', w') \<Longrightarrow> list_all (\<lambda>r. r = None) rs \<Longrightarrow>
   batchSize h' = batchSize h \<and> int (length (entries h')) < batchSize h"
proof (induction es arbitrary: h w rs)
  case Nil
  then show ?case by simp
next
  case (Cons e es)
  obtain r h1 w1 where F: "Fire h e w = (r, h1, w1)"
    by (cases "Fire h e w")
  obtain rs1 h2 w2 where R: "Fires h1 es w1 = (rs1, h2, w2)"
    by (cases "Fires h1 es w1")
  from Cons.prems(3) F R have eqs: "rs = r # rs1" "h' = h2" "w' = w2"
    by simp_all
  from Cons.prems(4) eqs have r: "r = None" and rs1: "list_all (\<lambda>r. r = None) rs1"
    by simp_all
  from Fire_result [OF Cons.prems(1) F] r
  have s: "batchSize h1 = batchSize h" "int (length (entries h1)) < batchSize h"
    by simp_all
  from Cons.IH [of h1 w1 rs1] s Cons.prems(1) R rs1 eqs show ?case by simp
qed

lemma singleton_concat: "length xs = Suc 0 \<Longrightarrow> xs = [concat xs]"
  by (cases xs) simp_all

lemma drop_last: "length es = Suc n \<Longrightarrow> drop n es = [last es]"
proof (induction es arbitrary: n)
  case Nil
  then show ?case by simp
next
  case (Cons e es)
  then show ?case by (cases n) auto
qed

text \<open>A run of appends from an empty buffer on a store that does not fail.\<close>

lemma Fires_fresh:
  assumes "0 < B" "batchSize h = int B" "entries h = []" "never_fails w"
    "Fires h es w = (rs, h', w')"
  shows "list_all (\<lambda>r. r = None) rs" and "never_fails w'" and "batchSize h' = int B"
    and "entries h' = drop (B * (length es div B)) es"
    and "length (entries h') = length es mod B"
    and "committed w' = committed w @ received w w'"
    and "length (received w w') = length es div B"
    and "list_all (\<lambda>b. length b = B) (received w w')"
    and "concat (received w w') = map row_of (take (B * (length es div B)) es)"
    and "flushes w w' = length es div B"
proof -
  note nf = never_fails_Fires [OF assms(4,5)]
  show "list_all (\<lambda>r. r = None) rs" and "never_fails w'"
    using nf by simp_all
  have l: "length (entries h) < B" using assms(1,3) by simp
  note run = Fires_run [OF assms(1,2) l assms(5) conjunct1 [OF nf]]
  show "batchSize h' = int B" using run by simp
  show "length (entries h') = length es mod B"
    using conjunct1 [OF conjunct2 [OF conjunct2 [OF run]]] assms(3) by simp
  from conjunct2 [OF conjunct2 [OF conjunct2 [OF run]]] obtain bs cs where
    j: "committed w' = committed w @ bs \<and>
       length bs = (length (entries h) + length es) div B \<and>
       list_all (\<lambda>b. length b = B) bs \<and>
       concat bs = map row_of (take (B * ((length (entries h) + length es) div B)) (entries h @ es)) \<and>
       entries h' = drop (B * ((length (entries h) + length es) div B)) (entries h @ es) \<and>
       calls w' = calls w @ cs \<and>
       length (filter (\<lambda>c. fst c = Begin) cs) = (length (entries h) + length es) div B"
    by (elim exE)
  note rc = received_app [OF conjunct1 [OF j]]
  show "committed w' = committed w @ received w w'"
    using conjunct1 [OF j] by (simp only: rc)
  show "length (received w w') = length es div B"
    using j assms(3) by (simp only: rc) simp
  show "list_all (\<lambda>b. length b = B) (received w w')"
    using j by (simp only: rc)
  show "concat (received w w') = map row_of (take (B * (length es div B)) es)"
    using j assms(3) by (simp only: rc) simp
  show "entries h' = drop (B * (length es div B)) es"
    using j assms(3) by simp
  have "calls w' = calls w @ cs" using j by simp
  from flushes_app [OF this] show "flushes w w' = length es div B"
    using j assms(3) by simp
qed

lemma list_all_le: "list_all (\<lambda>b. length b = B) xs \<Longrightarrow> list_all (\<lambda>b. length b \<le> (B::nat)) xs"
  by (induction xs) simp_all

section \<open>Properties of the batching\<close>

text \<open>
  C9. With a batch size of zero the flush an append triggers is not always of the single entry
  just appended: a flush that fails keeps the buffer, and the next append flushes it whole.
  On a store whose first \<open>Begin\<close> fails, the first append returns the error, and the second
  append sends the two entries as one batch.
\<close>

theorem nonpositive_batchSize_counterexample:
  "batchSize (new_hook 0) \<le> 0 \<and>
   fst (Fires (new_hook 0) [main_entry id 0, main_entry id 1]
         (fresh_store [Some (OtherError ''bad connection'')]))
     = [Some (OtherError ''bad connection''), None] \<and>
   committed (snd (snd (Fires (new_hook 0) [main_entry id 0, main_entry id 1]
         (fresh_store [Some (OtherError ''bad connection'')]))))
     = [[[TimeV 0, TextV ''info'', TextV ''This is an info log entry''],
         [TimeV 1, TextV ''info'', TextV ''This is an info log entry'']]]"
  by (simp add: run_defs)

text \<open>
  C9, amended. The batch size is not validated. For every \<open>bs \<le> 0\<close>: \<open>NewClickHouseHook\<close>
  returns a hook with that batch size whenever opening and pinging succeed; every \<open>Fire\<close> on
  such a hook calls \<open>flush\<close> on the whole buffer with the new entry at its end (the test is
  \<open>len(hook.entries) >= hook.batchSize\<close>, and the length is at least one after the append).
  When the buffer was empty before the call, that flush is of the single entry just
  appended: if it succeeds the server has accepted a batch of that one entry and the buffer
  is empty again, if it fails the entry stays in the buffer. So on a store that does not
  fail, a run of appends from the empty buffer makes one flush per entry, each accepted by
  the server as a batch of that single entry, and leaves the buffer empty.
\<close>

theorem nonpositive_batchSize_flushes_every_entry:
  assumes "bs \<le> 0"
  shows
    "(next_outcome (script w) = None \<and> next_outcome (tl (script w)) = None \<longrightarrow>
        NewClickHouseHook dsn bs w =
          Returns (Inr \<lparr>db = DB ''clickhouse'' dsn, entries = [], batchSize = bs\<rparr>)
            (w\<lparr>script := tl (tl (script w)),
               calls := calls w @ [(Open ''clickhouse'' dsn, None), (Ping, None)]\<rparr>)) \<and>
     (batchSize h = bs \<longrightarrow> Fire h e w = flush (h\<lparr>entries := entries h @ [e]\<rparr>) w) \<and>
     (batchSize h = bs \<and> entries h = [] \<and> never_fails w \<and> Fires h es w = (rs, h', w') \<longrightarrow>
        list_all (\<lambda>r. r = None) rs \<and> entries h' = [] \<and>
        flushes w w' = length es \<and>
        committed w' = committed w @ map (\<lambda>e. [row_of e]) es) \<and>
     (batchSize h = bs \<and> entries h = [] \<and> Fire h e w = (r, h1, w1) \<longrightarrow>
        Fire h e w = flush (h\<lparr>entries := [e]\<rparr>) w \<and>
        (r = None \<longrightarrow> entries h1 = [] \<and> committed w1 = committed w @ [[row_of e]]) \<and>
        (r \<noteq> None \<longrightarrow> entries h1 = [e] \<and> committed w1 = committed w))"
proof (intro conjI impI)
  assume "next_outcome (script w) = None \<and> next_outcome (tl (script w)) = None"
  then show "NewClickHouseHook dsn bs w =
          Returns (Inr \<lparr>db = DB ''clickhouse'' dsn, entries = [], batchSize = bs\<rparr>)
            (w\<lparr>script := tl (tl (script w)),
               calls := calls w @ [(Open ''clickhouse'' dsn, None), (Ping, None)]\<rparr>)"
    by (simp add: NewClickHouseHook_ok)
next
  assume "batchSize h = bs"
  with assms have "batchSize h \<le> int (length (entries h)) + 1" by simp
  then show "Fire h e w = flush (h\<lparr>entries := entries h @ [e]\<rparr>) w"
    by (rule Fire_trigger)
next
  assume a: "batchSize h = bs \<and> entries h = [] \<and> never_fails w \<and> Fires h es w = (rs, h', w')"
  note r = Fires_nonpositive [OF assms conjunct1 [OF a] conjunct1 [OF conjunct2 [OF a]]
      conjunct1 [OF conjunct2 [OF conjunct2 [OF a]]] conjunct2 [OF conjunct2 [OF conjunct2 [OF a]]]]
  from r show "list_all (\<lambda>r. r = None) rs" and "entries h' = []"
    and "committed w' = committed w @ map (\<lambda>e. [row_of e]) es"
    by simp_all
  from conjunct2 [OF conjunct2 [OF conjunct2 [OF conjunct2 [OF r]]]] obtain cs where
    cs: "calls w' = calls w @ cs \<and> length (filter (\<lambda>c. fst c = Begin) cs) = length es"
    ..
  show "flushes w w' = length es"
    using flushes_app [OF conjunct1 [OF cs]] conjunct2 [OF cs] by simp
next
  assume a: "batchSize h = bs \<and> entries h = [] \<and> Fire h e w = (r, h1, w1)"
  note b = conjunct1 [OF a] and e0 = conjunct1 [OF conjunct2 [OF a]]
    and F = conjunct2 [OF conjunct2 [OF a]]
  let ?hA = "h\<lparr>entries := [e]\<rparr>"
  from assms b have "batchSize h \<le> int (length (entries h)) + 1" by simp
  from Fire_trigger [OF this, of e w] e0
  show eq: "Fire h e w = flush ?hA w" by simp
  from F have fl: "flush ?hA w = (r, h1, w1)" unfolding eq .
  {
    assume "r = None"
    with fl have "fst (flush ?hA w) = None" by simp
    note t = triple_eqD [OF flush_ok [OF this] fl]
    show "entries h1 = []"
      by (simp add: conjunct1 [OF conjunct2 [OF t]])
    show "committed w1 = committed w @ [[row_of e]]"
      by (simp add: conjunct2 [OF conjunct2 [OF t]])
  }
  {
    assume rn: "r \<noteq> None"
    with fl have "fst (flush ?hA w) \<noteq> None" by simp
    from flush_hook_kept [OF this] fl show "entries h1 = [e]" by simp
    from flush_effect(5) [OF fl rn] show "committed w1 = committed w" .
  }
qed

theorem nonpositive_batchSize_flushes_every_entry_witness:
  "(0::int) \<le> 0 \<and>
   NewClickHouseHook main_dsn 0 (fresh_store []) =
     Returns (Inr (new_hook 0))
       \<lparr>script = [], calls = [(Open ''clickhouse'' main_dsn, None), (Ping, None)],
        pending = [], committed = [], released = False\<rparr> \<and>
   never_fails (fresh_store []) \<and>
   fst (Fires (new_hook 0) [main_entry id 0, main_entry id 1] (fresh_store [])) = [None, None] \<and>
   flushes (fresh_store [])
     (snd (snd (Fires (new_hook 0) [main_entry id 0, main_entry id 1] (fresh_store [])))) = 2 \<and>
   committed (snd (snd (Fires (new_hook 0) [main_entry id 0, main_entry id 1] (fresh_store [])))) =
     [[[TimeV 0, TextV ''info'', TextV ''This is an info log entry'']],
      [[TimeV 1, TextV ''info'', TextV ''This is an info log entry'']]] \<and>
   fst (Fire (new_hook 0) (main_entry id 0) (fresh_store [])) = None \<and>
   entries (fst (snd (Fire (new_hook 0) (main_entry id 0) (fresh_store [])))) = [] \<and>
   committed (snd (snd (Fire (new_hook 0) (main_entry id 0) (fresh_store [])))) =
     [[[TimeV 0, TextV ''info'', TextV ''This is an info log entry'']]]"
proof -
  let ?h = "new_hook 0"
  let ?w = "fresh_store []"
  let ?es = "[main_entry id 0, main_entry id 1]"
  let ?F = "Fire ?h (main_entry id 0) ?w"
  have z: "(0::int) \<le> 0" by simp
  have f: "fst (Fires ?h ?es ?w) = [None, None]"
    by (simp add: run_defs)
  have p: "batchSize ?h = 0 \<and> entries ?h = [] \<and> never_fails ?w \<and>
      Fires ?h ?es ?w = (fst (Fires ?h ?es ?w), fst (snd (Fires ?h ?es ?w)), snd (snd (Fires ?h ?es ?w)))"
    by (simp add: new_hook_def fresh_store_def never_fails_def)
  have n: "next_outcome (script ?w) = None \<and> next_outcome (tl (script ?w)) = None"
    by (simp add: fresh_store_def)
  note t = nonpositive_batchSize_flushes_every_entry [OF z, of ?w main_dsn ?h "main_entry id 0" ?es
      "fst (Fires ?h ?es ?w)" "fst (snd (Fires ?h ?es ?w))" "snd (snd (Fires ?h ?es ?w))"
      "fst ?F" "fst (snd ?F)" "snd (snd ?F)"]
  note t1 = mp [OF conjunct1 [OF t] n]
  note t3 = mp [OF conjunct1 [OF conjunct2 [OF conjunct2 [OF t]]] p]
  have q: "batchSize ?h = 0 \<and> entries ?h = [] \<and> ?F = (fst ?F, fst (snd ?F), snd (snd ?F))"
    by (simp add: new_hook_def)
  note t4 = mp [OF conjunct2 [OF conjunct2 [OF conjunct2 [OF t]]] q]
  have g: "fst ?F = None" by (simp add: run_defs)
  note t5 = mp [OF conjunct1 [OF conjunct2 [OF t4]] g]
  have d: "entries (fst (snd ?F)) = []" by (rule conjunct1 [OF t5])
  have d': "committed (snd (snd ?F)) =
     [[[TimeV 0, TextV ''info'', TextV ''This is an info log entry'']]]"
    unfolding conjunct2 [OF t5] by (simp add: fresh_store_def row_of_def main_entry_def)
  have a: "NewClickHouseHook main_dsn 0 ?w =
     Returns (Inr (new_hook 0))
       \<lparr>script = [], calls = [(Open ''clickhouse'' main_dsn, None), (Ping, None)],
        pending = [], committed = [], released = False\<rparr>"
    unfolding t1 by (simp add: fresh_store_def new_hook_def)
  have b: "flushes ?w (snd (snd (Fires ?h ?es ?w))) = 2"
    using t3 by simp
  have c: "committed (snd (snd (Fires ?h ?es ?w))) =
     [[[TimeV 0, TextV ''info'', TextV ''This is an info log entry'']],
      [[TimeV 1, TextV ''info'', TextV ''This is an info log entry'']]]"
    unfolding conjunct2 [OF conjunct2 [OF conjunct2 [OF t3]]]
    by (simp add: fresh_store_def row_of_def main_entry_def)
  from z a p f b c g d d' show ?thesis by (intro conjI) simp_all
qed

text \<open>
  C5. The buffer can grow beyond the batch size: when the flush that an append triggers fails,
  \<open>Fire\<close> returns the error and keeps the buffer. With batch size 1 and a store whose \<open>Begin\<close>
  fails twice, two appends return with two entries in the buffer.
\<close>

theorem buffer_bound_counterexample:
  "batchSize (new_hook 1) = 1 \<and>
   fst (Fires (new_hook 1) [main_entry id 0, main_entry id 1]
         (fresh_store [Some (OtherError ''bad connection''), Some (OtherError ''bad connection'')]))
     = [Some (OtherError ''bad connection''), Some (OtherError ''bad connection'')] \<and>
   entries (fst (snd (Fires (new_hook 1) [main_entry id 0, main_entry id 1]
         (fresh_store [Some (OtherError ''bad connection''), Some (OtherError ''bad connection'')]))))
     = [main_entry id 0, main_entry id 1]"
  by (simp add: run_defs)

text \<open>
  C5, amended. With a positive batch size, after every \<open>Fire\<close> that returns success the
  buffer holds fewer entries than the batch size; when \<open>Fire\<close> returns an error, the buffer
  is the old one with the new entry appended and holds at least the batch size. If the buffer
  was below the batch size before the call, then \<open>Fire\<close> is the flush of the old buffer with
  the new entry appended when that buffer has exactly the batch size, and otherwise it only
  appends and touches the store not at all: the buffer handed to \<open>flush\<close> does not exceed the
  batch size, and the call issues at most that many inserts. So along a run of appends that
  all return success, starting below the batch size, the buffer is below the batch size after
  every call.
\<close>

theorem buffer_below_batchSize_after_Fire:
  assumes "0 < batchSize h"
  shows
    "(Fire h e w = (r, h', w') \<longrightarrow>
        batchSize h' = batchSize h \<and>
        (r = None \<longrightarrow> int (length (entries h')) < batchSize h) \<and>
        (r \<noteq> None \<longrightarrow> entries h' = entries h @ [e] \<and> batchSize h \<le> int (length (entries h')))) \<and>
     (int (length (entries h)) < batchSize h \<and> Fire h e w = (r, h', w') \<longrightarrow>
        Fire h e w =
          (if int (length (entries h)) + 1 = batchSize h
           then flush (h\<lparr>entries := entries h @ [e]\<rparr>) w
           else (None, h\<lparr>entries := entries h @ [e]\<rparr>, w)) \<and>
        int (length (entries h @ [e])) \<le> batchSize h \<and>
        length (filter is_Exec (map fst (issued w w'))) \<le> nat (batchSize h)) \<and>
     (int (length (entries h)) < batchSize h \<and> Fires h es w = (rs, h2, w2) \<and>
      list_all (\<lambda>r. r = None) rs \<longrightarrow>
        batchSize h2 = batchSize h \<and> int (length (entries h2)) < batchSize h)"
proof (intro conjI impI)
  assume F: "Fire h e w = (r, h', w')"
  note s = Fire_result [OF assms F]
  from s show "batchSize h' = batchSize h" by simp
  { assume "r = None" with s show "int (length (entries h')) < batchSize h" by simp }
  { assume rn: "r \<noteq> None"
    note k = mp [OF conjunct2 [OF conjunct2 [OF s]] rn]
    show "entries h' = entries h @ [e]" by (rule conjunct1 [OF k])
    show "batchSize h \<le> int (length (entries h'))" by (rule conjunct2 [OF k]) }
next
  assume a: "int (length (entries h)) < batchSize h \<and> Fire h e w = (r, h', w')"
  note l = conjunct1 [OF a] and F = conjunct2 [OF a]
  let ?hA = "h\<lparr>entries := entries h @ [e]\<rparr>"
  show "int (length (entries h @ [e])) \<le> batchSize h"
    using l by simp
  show "Fire h e w =
          (if int (length (entries h)) + 1 = batchSize h
           then flush (h\<lparr>entries := entries h @ [e]\<rparr>) w
           else (None, h\<lparr>entries := entries h @ [e]\<rparr>, w))"
  proof (cases "int (length (entries h)) + 1 = batchSize h")
    case True
    then have "batchSize h \<le> int (length (entries h)) + 1" by simp
    from Fire_trigger [OF this, of e w] True show ?thesis by simp
  next
    case False
    with l have "int (length (entries h)) + 1 < batchSize h" by simp
    from Fire_below [OF this, of e w] False show ?thesis by simp
  qed
  show "length (filter is_Exec (map fst (issued w w'))) \<le> nat (batchSize h)"
  proof (cases "int (length (entries h)) + 1 = batchSize h")
    case True
    then have "batchSize h \<le> int (length (entries h)) + 1" by simp
    from Fire_trigger [OF this, of e w] F have fl: "flush ?hA w = (r, h', w')" by simp
    from prefix_length_le [OF flush_effect(2) [OF fl]]
    have "length (filter is_Exec (map fst (issued w w'))) \<le> length (entries h) + 1"
      by simp
    with True show ?thesis by simp
  next
    case False
    with l have "int (length (entries h)) + 1 < batchSize h" by simp
    from Fire_below [OF this, of e w] F have "w' = w" by simp
    then show ?thesis by (simp add: issued_def)
  qed
next
  assume a: "int (length (entries h)) < batchSize h \<and> Fires h es w = (rs, h2, w2) \<and>
      list_all (\<lambda>r. r = None) rs"
  note s = Fires_below [OF assms conjunct1 [OF a] conjunct1 [OF conjunct2 [OF a]]
      conjunct2 [OF conjunct2 [OF a]]]
  from s show "batchSize h2 = batchSize h" and "int (length (entries h2)) < batchSize h"
    by simp_all
qed

theorem buffer_below_batchSize_after_Fire_witness:
  "0 < batchSize (new_hook 2) \<and> 0 < batchSize (new_hook 1) \<and>
   fst (Fire (new_hook 2) (main_entry id 0) (fresh_store [])) = None \<and>
   int (length (entries (fst (snd (Fire (new_hook 2) (main_entry id 0) (fresh_store [])))))) < 2 \<and>
   fst (Fire (new_hook 1) (main_entry id 0) (fresh_store [Some (OtherError ''bad connection'')]))
     \<noteq> None \<and>
   entries (fst (snd (Fire (new_hook 1) (main_entry id 0)
     (fresh_store [Some (OtherError ''bad connection'')])))) = [main_entry id 0] \<and>
   int (length (entries (new_hook 2))) < batchSize (new_hook 2) \<and>
   list_all (\<lambda>r. r = None)
     (fst (Fires (new_hook 2) [main_entry id 0, main_entry id 1, main_entry id 2] (fresh_store []))) \<and>
   int (length (entries (fst (snd
     (Fires (new_hook 2) [main_entry id 0, main_entry id 1, main_entry id 2] (fresh_store [])))))) < 2 \<and>
   int (length (entries (new_hook 1))) < batchSize (new_hook 1) \<and>
   Fire (new_hook 1) (main_entry id 0) (fresh_store [Some (OtherError ''bad connection'')]) =
     flush ((new_hook 1)\<lparr>entries := [main_entry id 0]\<rparr>)
       (fresh_store [Some (OtherError ''bad connection'')]) \<and>
   length (filter is_Exec (map fst
     (issued (fresh_store [Some (OtherError ''bad connection'')])
        (snd (snd (Fire (new_hook 1) (main_entry id 0)
           (fresh_store [Some (OtherError ''bad connection'')]))))))) \<le> nat (batchSize (new_hook 1))"
proof -
  let ?e = "main_entry id 0"
  let ?es = "[main_entry id 0, main_entry id 1, main_entry id 2]"
  let ?wf = "fresh_store [Some (OtherError ''bad connection'')]"
  let ?A = "Fire (new_hook 2) ?e (fresh_store [])"
  let ?B = "Fire (new_hook 1) ?e ?wf"
  let ?C = "Fires (new_hook 2) ?es (fresh_store [])"
  have p2: "0 < batchSize (new_hook 2)" and p1: "0 < batchSize (new_hook 1)"
    and b2: "batchSize (new_hook 2) = 2"
    and l2: "int (length (entries (new_hook 2))) < batchSize (new_hook 2)"
    and e1: "entries (new_hook 1) = []"
    by (simp_all add: new_hook_def)
  have a: "fst ?A = None" by (simp add: run_defs)
  have b: "fst ?B \<noteq> None" by (simp add: run_defs)
  have c: "list_all (\<lambda>r. r = None) (fst ?C)" by (simp add: run_defs)
  note tA = buffer_below_batchSize_after_Fire [OF p2, of ?e "fresh_store []" "fst ?A" "fst (snd ?A)"
      "snd (snd ?A)" ?es "fst ?C" "fst (snd ?C)" "snd (snd ?C)"]
  note tB = buffer_below_batchSize_after_Fire [OF p1, of ?e ?wf "fst ?B" "fst (snd ?B)"
      "snd (snd ?B)" "[]" "[]" "new_hook 1" ?wf]
  note sA = mp [OF conjunct1 [OF tA] pair3 [OF refl]]
  note sB = mp [OF conjunct1 [OF tB] pair3 [OF refl]]
  note sC = mp [OF conjunct2 [OF conjunct2 [OF tA]] conjI [OF l2 conjI [OF pair3 [OF refl] c]]]
  have a': "int (length (entries (fst (snd ?A)))) < 2"
    using mp [OF conjunct1 [OF conjunct2 [OF sA]] a] b2 by simp
  have b': "entries (fst (snd ?B)) = [?e]"
    using conjunct1 [OF mp [OF conjunct2 [OF conjunct2 [OF sB]] b]] e1 by simp
  have c': "int (length (entries (fst (snd ?C)))) < 2"
    using conjunct2 [OF sC] b2 by simp
  have l1: "int (length (entries (new_hook 1))) < batchSize (new_hook 1)"
    by (simp add: new_hook_def)
  note sM = mp [OF conjunct1 [OF conjunct2 [OF tB]] conjI [OF l1 pair3 [OF refl]]]
  have m: "Fire (new_hook 1) ?e ?wf = flush ((new_hook 1)\<lparr>entries := [?e]\<rparr>) ?wf"
    using conjunct1 [OF sM] e1 by (simp add: new_hook_def)
  note m' = conjunct2 [OF conjunct2 [OF sM]]
  from p2 p1 a a' b b' l2 c c' l1 m m' show ?thesis by (intro conjI)
qed

text \<open>
  C6. The boundary at \<open>B + 1\<close> entries fails for \<open>B = 1\<close>: every append reaches the batch size,
  so two appends make two flushes and leave the buffer empty, on a store that does not fail.
\<close>

theorem threshold_boundary_counterexample:
  "batchSize (new_hook 1) = 1 \<and> entries (new_hook 1) = [] \<and> never_fails (fresh_store []) \<and>
   fst (Fires (new_hook 1) [main_entry id 0, main_entry id 1] (fresh_store [])) = [None, None] \<and>
   flushes (fresh_store [])
     (snd (snd (Fires (new_hook 1) [main_entry id 0, main_entry id 1] (fresh_store [])))) = 2 \<and>
   entries (fst (snd (Fires (new_hook 1) [main_entry id 0, main_entry id 1] (fresh_store [])))) = []"
  by (simp add: run_defs flushes_def issued_def never_fails_def)

text \<open>
  C6, amended. On a store that does not fail, from an empty buffer and with a positive batch
  size \<open>B\<close>: appending exactly \<open>B\<close> entries makes exactly one flush, of these \<open>B\<close> entries,
  and leaves the buffer empty; appending \<open>B + 1\<close> entries with \<open>B \<ge> 2\<close> makes exactly one
  flush, of the first \<open>B\<close> entries, and leaves exactly the last entry buffered; with \<open>B = 1\<close>
  the two appends make two flushes and leave the buffer empty.
\<close>

theorem threshold_boundary:
  assumes "0 < B" "batchSize h = int B" "entries h = []" "never_fails w"
    "Fires h es w = (rs, h', w')"
  shows "list_all (\<lambda>r. r = None) rs \<and>
    committed w' = committed w @ received w w' \<and>
    (length es = B \<longrightarrow>
       flushes w w' = 1 \<and> received w w' = [map row_of es] \<and> entries h' = []) \<and>
    (length es = B + 1 \<and> 2 \<le> B \<longrightarrow>
       flushes w w' = 1 \<and> received w w' = [map row_of (take B es)] \<and> entries h' = [last es]) \<and>
    (length es = B + 1 \<and> B = 1 \<longrightarrow>
       flushes w w' = 2 \<and> length (received w w') = 2 \<and> entries h' = [])"
proof (intro conjI impI)
  note f = Fires_fresh [OF assms]
  show "list_all (\<lambda>r. r = None) rs" by (rule f(1))
  show "committed w' = committed w @ received w w'" by (rule f(6))
  {
    assume n: "length es = B"
    with assms(1) have d: "length es div B = 1" by simp
    show "flushes w w' = 1" using f(10) d by simp
    have "length (received w w') = Suc 0" using f(7) d by simp
    from singleton_concat [OF this] show "received w w' = [map row_of es]"
      using f(9) d n by simp
    show "entries h' = []" using f(4) d n by simp
  }
  {
    assume a: "length es = B + 1 \<and> 2 \<le> B"
    then have n: "length es = Suc B" and b: "2 \<le> B" by simp_all
    from b have nz: "B \<noteq> 0" by simp
    from b have "1 div B = 0" by simp
    with div_add_self1 [OF nz, of 1] have d: "length es div B = 1"
      by (simp add: n)
    show "flushes w w' = 1" using f(10) d by simp
    have "length (received w w') = Suc 0" using f(7) d by simp
    from singleton_concat [OF this] show "received w w' = [map row_of (take B es)]"
      using f(9) d by simp
    show "entries h' = [last es]" using f(4) d drop_last [OF n] by simp
  }
  {
    assume a: "length es = B + 1 \<and> B = 1"
    then have n: "length es = 2" and b: "B = 1" by simp_all
    show "flushes w w' = 2" using f(10) n b by simp
    show "length (received w w') = 2" using f(7) n b by simp
    show "entries h' = []" using f(4) n b by simp
  }
qed

theorem threshold_boundary_witness:
  "(0::nat) < 2 \<and> batchSize (new_hook 2) = int 2 \<and> entries (new_hook 2) = [] \<and>
   never_fails (fresh_store []) \<and>
   flushes (fresh_store [])
     (snd (snd (Fires (new_hook 2) [main_entry id 0, main_entry id 1] (fresh_store [])))) = 1 \<and>
   entries (fst (snd (Fires (new_hook 2) [main_entry id 0, main_entry id 1] (fresh_store [])))) = [] \<and>
   received (fresh_store [])
     (snd (snd (Fires (new_hook 2) [main_entry id 0, main_entry id 1, main_entry id 2] (fresh_store []))))
     = [[[TimeV 0, TextV ''info'', TextV ''This is an info log entry''],
         [TimeV 1, TextV ''info'', TextV ''This is an info log entry'']]] \<and>
   entries (fst (snd
     (Fires (new_hook 2) [main_entry id 0, main_entry id 1, main_entry id 2] (fresh_store []))))
     = [main_entry id 2] \<and>
   (0::nat) < 1 \<and> batchSize (new_hook 1) = int 1 \<and>
   flushes (fresh_store [])
     (snd (snd (Fires (new_hook 1) [main_entry id 0, main_entry id 1] (fresh_store [])))) = 2"
proof -
  let ?w = "fresh_store []"
  let ?A = "Fires (new_hook 2) [main_entry id 0, main_entry id 1] ?w"
  let ?B = "Fires (new_hook 2) [main_entry id 0, main_entry id 1, main_entry id 2] ?w"
  let ?C = "Fires (new_hook 1) [main_entry id 0, main_entry id 1] ?w"
  have p: "(0::nat) < 2" "batchSize (new_hook 2) = int 2" "entries (new_hook 2) = []"
    "never_fails ?w" "(0::nat) < 1" "batchSize (new_hook 1) = int 1" "entries (new_hook 1) = []"
    by (simp_all add: new_hook_def fresh_store_def never_fails_def)
  note tA = threshold_boundary [OF p(1,2,3,4) pair3 [OF refl, of ?A]]
  note tB = threshold_boundary [OF p(1,2,3,4) pair3 [OF refl, of ?B]]
  note tC = threshold_boundary [OF p(5,6,7,4) pair3 [OF refl, of ?C]]
  have a: "flushes ?w (snd (snd ?A)) = 1 \<and> entries (fst (snd ?A)) = []"
    using conjunct1 [OF conjunct2 [OF conjunct2 [OF tA]]] by simp
  have b: "received ?w (snd (snd ?B))
     = [[[TimeV 0, TextV ''info'', TextV ''This is an info log entry''],
         [TimeV 1, TextV ''info'', TextV ''This is an info log entry'']]] \<and>
     entries (fst (snd ?B)) = [main_entry id 2]"
    using conjunct1 [OF conjunct2 [OF conjunct2 [OF conjunct2 [OF tB]]]]
    by (simp add: row_of_def main_entry_def)
  have c: "flushes ?w (snd (snd ?C)) = 2"
    using conjunct2 [OF conjunct2 [OF conjunct2 [OF conjunct2 [OF tC]]]] by simp
  from p a b c show ?thesis by (intro conjI) simp_all
qed

text \<open>
  C1. The number of batches is not the quotient rounded up: appends alone flush only full
  batches. With batch size 5 on a store that does not fail, three appends return success
  and the server has received no batch, while 3/5 rounded up is 1; the final flush of the
  three buffered entries then makes it one batch, not one more than 3/5 rounded up.
\<close>

theorem batch_count_counterexample:
  "0 < batchSize (new_hook 5) \<and> entries (new_hook 5) = [] \<and> never_fails (fresh_store []) \<and>
   fst (Fires (new_hook 5) [main_entry id 0, main_entry id 1, main_entry id 2] (fresh_store []))
     = [None, None, None] \<and>
   committed (snd (snd
     (Fires (new_hook 5) [main_entry id 0, main_entry id 1, main_entry id 2] (fresh_store [])))) = [] \<and>
   length (committed (snd (snd (flush
     (fst (snd (Fires (new_hook 5) [main_entry id 0, main_entry id 1, main_entry id 2] (fresh_store []))))
     (snd (snd (Fires (new_hook 5) [main_entry id 0, main_entry id 1, main_entry id 2] (fresh_store [])))))))) = 1 \<and>
   ceil_div 3 5 = 1"
  by (simp add: run_defs never_fails_def ceil_div_def)

text \<open>
  C1, amended. On a store that does not fail, from an empty buffer and with a positive batch
  size \<open>B\<close>, appending \<open>N\<close> entries makes the server receive exactly \<open>N div B\<close> batches, each
  of exactly \<open>B\<close> rows; put end to end they are the rows of the first \<open>B * (N div B)\<close> entries
  in append order, and the remaining \<open>N mod B\<close> entries stay in the buffer, in order. A final
  flush then succeeds and adds one batch with the rows of the remainder: every batch has at
  most \<open>B\<close> rows, all batches end to end are the rows of the appended entries in append
  order, and when the remainder was not empty the number of batches is \<open>N / B\<close> rounded up.
\<close>

theorem batches_of_a_run:
  assumes "0 < B" "batchSize h = int B" "entries h = []" "never_fails w"
    "Fires h es w = (rs, h', w')" "flush h' w' = (r, h'', w'')"
  shows "list_all (\<lambda>r. r = None) rs \<and>
     committed w' = committed w @ received w w' \<and>
     length (received w w') = length es div B \<and>
     list_all (\<lambda>b. length b = B) (received w w') \<and>
     concat (received w w') = map row_of (take (B * (length es div B)) es) \<and>
     entries h' = drop (B * (length es div B)) es \<and>
     length (entries h') = length es mod B \<and>
     r = None \<and> entries h'' = [] \<and>
     received w w'' = received w w' @ [map row_of (entries h')] \<and>
     list_all (\<lambda>b. length b \<le> B) (received w w'') \<and>
     concat (received w w'') = map row_of es \<and>
     (entries h' \<noteq> [] \<longrightarrow> length (received w w'') = ceil_div (length es) B)"
proof -
  note f = Fires_fresh [OF assms(1-5)]
  note nf = never_fails_flush [OF f(2), of h']
  from nf(1) assms(6) have r: "r = None" by simp
  note t = triple_eqD [OF flush_ok [OF nf(1)] assms(6)]
  have h'': "entries h'' = []"
    by (simp add: conjunct1 [OF conjunct2 [OF t]])
  have "committed w'' = committed w' @ [map row_of (entries h')]"
    by (simp add: conjunct2 [OF conjunct2 [OF t]])
  then have "committed w'' = committed w @ (received w w' @ [map row_of (entries h')])"
    using f(6) by simp
  note rc = received_app [OF this]
  have le: "list_all (\<lambda>b. length b \<le> B) (received w w'')"
    using list_all_le [OF f(8)] f(5) assms(1) by (simp add: rc)
  have "map row_of (take (B * (length es div B)) es) @ map row_of (drop (B * (length es div B)) es)
      = map row_of es"
    by (simp only: map_append [symmetric] append_take_drop_id)
  then have cc: "concat (received w w'') = map row_of es"
    using f(9) f(4) by (simp add: rc)
  have ce: "length (received w w'') = ceil_div (length es) B" if "entries h' \<noteq> []"
  proof -
    from that have "length (entries h') \<noteq> 0" by simp
    with f(5) have "length es mod B \<noteq> 0" by simp
    from ceil_div_Suc [OF assms(1) this] f(7) show ?thesis by (simp add: rc)
  qed
  from f(1) f(6) f(7) f(8) f(9) f(4) f(5) r h'' rc le cc ce show ?thesis
    by (intro conjI impI)
qed

theorem batches_of_a_run_witness:
  "(0::nat) < 2 \<and> batchSize (new_hook 2) = int 2 \<and> entries (new_hook 2) = [] \<and>
   never_fails (fresh_store []) \<and>
   received (fresh_store [])
     (snd (snd (Fires (new_hook 2) [main_entry id 0, main_entry id 1, main_entry id 2] (fresh_store []))))
     = [[[TimeV 0, TextV ''info'', TextV ''This is an info log entry''],
         [TimeV 1, TextV ''info'', TextV ''This is an info log entry'']]] \<and>
   entries (fst (snd
     (Fires (new_hook 2) [main_entry id 0, main_entry id 1, main_entry id 2] (fresh_store []))))
     = [main_entry id 2] \<and>
   fst (flush
     (fst (snd (Fires (new_hook 2) [main_entry id 0, main_entry id 1, main_entry id 2] (fresh_store []))))
     (snd (snd (Fires (new_hook 2) [main_entry id 0, main_entry id 1, main_entry id 2] (fresh_store [])))))
     = None \<and>
   received (fresh_store []) (snd (snd (flush
     (fst (snd (Fires (new_hook 2) [main_entry id 0, main_entry id 1, main_entry id 2] (fresh_store []))))
     (snd (snd (Fires (new_hook 2) [main_entry id 0, main_entry id 1, main_entry id 2] (fresh_store [])))))))
     = [[[TimeV 0, TextV ''info'', TextV ''This is an info log entry''],
         [TimeV 1, TextV ''info'', TextV ''This is an info log entry'']],
        [[TimeV 2, TextV ''info'', TextV ''This is an info log entry'']]] \<and>
   ceil_div 3 2 = 2"
proof -
  let ?w = "fresh_store []"
  let ?es = "[main_entry id 0, main_entry id 1, main_entry id 2]"
  let ?A = "Fires (new_hook 2) ?es ?w"
  let ?F = "flush (fst (snd ?A)) (snd (snd ?A))"
  have p: "(0::nat) < 2" "batchSize (new_hook 2) = int 2" "entries (new_hook 2) = []"
    "never_fails ?w"
    by (simp_all add: new_hook_def fresh_store_def never_fails_def)
  note t = batches_of_a_run [OF p pair3 [OF refl, of ?A] pair3 [OF refl, of ?F]]
  have d: "length ?es div 2 = 1" "ceil_div 3 2 = 2" by (simp_all add: ceil_div_def)
  have e: "entries (fst (snd ?A)) = [main_entry id 2]"
    using t by (simp add: d del: Fires.simps)
  have a: "received ?w (snd (snd ?A))
     = [[[TimeV 0, TextV ''info'', TextV ''This is an info log entry''],
         [TimeV 1, TextV ''info'', TextV ''This is an info log entry'']]]"
  proof -
    have "length (received ?w (snd (snd ?A))) = Suc 0" using t by (simp add: d del: Fires.simps)
    from singleton_concat [OF this] show ?thesis
      using t by (simp add: d row_of_def main_entry_def del: Fires.simps)
  qed
  have b: "fst ?F = None" using t by (simp del: Fires.simps)
  have "received ?w (snd (snd ?F)) = received ?w (snd (snd ?A)) @ [map row_of (entries (fst (snd ?A)))]"
    using t by (simp del: Fires.simps)
  moreover have "map row_of (entries (fst (snd ?A))) =
      [[TimeV 2, TextV ''info'', TextV ''This is an info log entry'']]"
    unfolding e by (simp add: row_of_def main_entry_def)
  ultimately have c: "received ?w (snd (snd ?F))
     = [[[TimeV 0, TextV ''info'', TextV ''This is an info log entry''],
         [TimeV 1, TextV ''info'', TextV ''This is an info log entry'']],
        [[TimeV 2, TextV ''info'', TextV ''This is an info log entry'']]]"
    unfolding a by (simp only: append_Cons append_Nil)
  from p a e b c d(2) show ?thesis by (intro conjI)
qed

section \<open>The handle at the end of \<open>main\<close>\<close>

text \<open>
  C8. Release of the handle when the final flush fails. On a store where everything succeeds
  up to the final flush and the \<open>Begin\<close> of the final flush fails (outcomes 1 and 2 are
  \<open>sql.Open\<close> and \<open>Ping\<close>, 3 to 18 the two flushes of five entries, 19 the failing \<open>Begin\<close>),
  \<open>main\<close> ends through \<open>log.Fatalf\<close>: the two batches are on the server and
  \<open>hook.db.Close()\<close> was never called. When nothing fails, \<open>main\<close> returns and the deferred
  \<open>Close\<close> has run.
\<close>

theorem main_failed_final_flush_leaves_handle_open:
  "exit_fatal (main id (fresh_store (replicate 18 None @ [Some (OtherError ''bad connection'')])))
     = Some (FatalFlush (OtherError ''bad connection'')) \<and>
   length (committed (final_store
     (main id (fresh_store (replicate 18 None @ [Some (OtherError ''bad connection'')]))))) = 2 \<and>
   \<not> released (final_store
     (main id (fresh_store (replicate 18 None @ [Some (OtherError ''bad connection'')])))) \<and>
   (DbClose, None) \<notin> set (calls (final_store
     (main id (fresh_store (replicate 18 None @ [Some (OtherError ''bad connection'')]))))) \<and>
   exit_fatal (main id (fresh_store [])) = None \<and>
   released (final_store (main id (fresh_store [])))"
  by code_simp

end
